theory Spec2Isabelle
  imports Complex_Main
begin

section \<open>Array backend primitives on real scalars\<close>

text \<open>
  The floating-point scalars of the array backend are modelled as real numbers: the
  statements below are about exact real arithmetic, except those of the section on
  regularization in double precision, where the rounding of the remainder is modelled.  The backend itself (module
  \<^verbatim>\<open>geomstats.backend\<close>) is not part of the sources under study; the primitives the
  geometry code calls are written out here with their numpy meaning.
\<close>

text \<open>
  \<^verbatim>\<open>gs.mod(a, d)\<close> in exact arithmetic: the floored remainder, which has the sign of the
  divisor.  Its double-precision counterpart is \<open>gs_mod_double\<close> below.
\<close>

definition gs_mod :: "real \<Rightarrow> real \<Rightarrow> real" where
  "gs_mod a d = a - d * of_int \<lfloor>a / d\<rfloor>"

text \<open>
  Modelled from the spec: \<^verbatim>\<open>gs.isclose(a, b, atol)\<close> belongs to the array backend, which is
  missing from the sources; the spec describes it as a comparison to a target value under an
  absolute tolerance.
\<close>

definition isclose :: "real \<Rightarrow> real \<Rightarrow> real \<Rightarrow> bool" where
  "isclose a b atol \<longleftrightarrow> \<bar>a - b\<bar> \<le> atol"

text \<open>
  Modelled from the spec: \<^verbatim>\<open>gs.argmin\<close> belongs to the array backend, which is missing from
  the sources; it returns the index of the smallest entry, the first one among ties.
\<close>

fun argmin :: "real list \<Rightarrow> nat" where
  "argmin [] = 0"
| "argmin [x] = 0"
| "argmin (x # y # ys) = (let i = argmin (y # ys) in if x \<le> (y # ys) ! i then 0 else Suc i)"


section \<open>The Klein bottle (\<^verbatim>\<open>klein_bottle.py\<close>)\<close>

text \<open>A point is an array of shape \<^verbatim>\<open>(2,)\<close>: the pair of its two coordinates.\<close>

type_synonym point = "real \<times> real"

text \<open>\<^verbatim>\<open>KleinBottle.belongs\<close>: both coordinates lie in the closed unit interval.\<close>

definition belongs :: "point \<Rightarrow> bool" where
  "belongs p \<longleftrightarrow> (0 \<le> fst p \<and> fst p \<le> 1) \<and> (0 \<le> snd p \<and> snd p \<le> 1)"

text \<open>\<^verbatim>\<open>_is_close_mod(array, divisor, atol)\<close>.\<close>

definition is_close_mod :: "real \<Rightarrow> real \<Rightarrow> real \<Rightarrow> bool" where
  "is_close_mod a divisor atol \<longleftrightarrow> isclose (abs a) 0 atol \<or> isclose (abs a) divisor atol"

text \<open>\<^verbatim>\<open>KleinBottle.equivalent(point_a, point_b, atol)\<close>.\<close>

definition equivalent :: "point \<Rightarrow> point \<Rightarrow> real \<Rightarrow> bool" where
  "equivalent point_a point_b atol =
     (let x_diff = fst point_a - fst point_b;
          y_diff = snd point_a - snd point_b;
          y_sum = snd point_a + snd point_b;
          un_mirrored = (is_close_mod (gs_mod x_diff 2) 2 atol
                         \<and> is_close_mod (gs_mod y_diff 1) 1 atol);
          mirrored = (is_close_mod (gs_mod (x_diff - 1) 2) 2 atol
                      \<and> is_close_mod (gs_mod y_sum 1) 1 atol)
      in un_mirrored \<or> mirrored)"

text \<open>\<^verbatim>\<open>KleinBottle.regularize(point)\<close>.\<close>

definition regularize :: "point \<Rightarrow> point" where
  "regularize p =
     (let num_steps = \<bar>\<lfloor>fst p\<rfloor>\<bar>;
          x_canonical = gs_mod (fst p) 1;
          y_canonical_even = gs_mod (snd p) 1;
          y_canonical_odd = gs_mod (1 - y_canonical_even) 1;
          point_even = (x_canonical, y_canonical_even);
          point_odd = (x_canonical, y_canonical_odd)
      in if num_steps mod 2 = 0 then point_even else point_odd)"

text \<open>Componentwise sum and difference of two arrays of shape \<^verbatim>\<open>(2,)\<close>.\<close>

definition padd :: "point \<Rightarrow> point \<Rightarrow> point" where
  "padd a b = (fst a + fst b, snd a + snd b)"

definition psub :: "point \<Rightarrow> point \<Rightarrow> point" where
  "psub a b = (fst a - fst b, snd a - snd b)"

text \<open>The squared Euclidean distance \<^verbatim>\<open>gs.sum((c - p1) ** 2, axis=-1)\<close>.\<close>

definition sqdist :: "point \<Rightarrow> point \<Rightarrow> real" where
  "sqdist c p = (fst c - fst p)\<^sup>2 + (snd c - snd p)\<^sup>2"

text \<open>
  The nine variants \<^verbatim>\<open>p2, p2_2, ..., p2_9\<close> stacked in \<^verbatim>\<open>p2_total\<close> by
  \<^verbatim>\<open>_closest_representative\<close>.
\<close>

definition p2_total :: "point \<Rightarrow> point list" where
  "p2_total p2 =
     [p2,
      (fst p2, snd p2 - 1),
      (fst p2, snd p2 + 1),
      (fst p2 + 1, 1 - snd p2),
      (fst p2 + 1, 2 - snd p2),
      (fst p2 + 1, 0 - snd p2),
      (fst p2 - 1, 1 - snd p2),
      (fst p2 - 1, 2 - snd p2),
      (fst p2 - 1, 0 - snd p2)]"

text \<open>\<^verbatim>\<open>KleinBottleMetric._closest_representative(point1, point2)\<close> on one pair of points.\<close>

definition closest_representative :: "point \<Rightarrow> point \<Rightarrow> point \<times> point" where
  "closest_representative point1 point2 =
     (let p1 = regularize point1;
          p2 = regularize point2;
          total = p2_total p2;
          index = argmin (map (\<lambda>c. sqdist c p1) total);
          minimizer = total ! index
      in (p1, minimizer))"

text \<open>\<^verbatim>\<open>KleinBottleMetric.exp(tangent_vec, base_point)\<close>.\<close>

definition kb_exp :: "point \<Rightarrow> point \<Rightarrow> point" where
  "kb_exp tangent_vec base_point =
     (let base_point_canonical = regularize base_point;
          point = padd base_point_canonical tangent_vec
      in regularize point)"

text \<open>\<^verbatim>\<open>KleinBottleMetric.log(point, base_point)\<close>.\<close>

definition kb_log :: "point \<Rightarrow> point \<Rightarrow> point" where
  "kb_log point base_point =
     (let (base_point_canonical, point_minimal) = closest_representative base_point point
      in psub point_minimal base_point_canonical)"

text \<open>
  The equivalence relation of the class documentation of \<^verbatim>\<open>KleinBottle\<close>:
  \<open>(x\<^sub>1, y\<^sub>1) \<sim> (x\<^sub>2, y\<^sub>2)\<close> iff \<open>y\<^sub>1 - y\<^sub>2 \<in> \<int>\<close> and \<open>x\<^sub>1 - x\<^sub>2 \<in> 2\<int>\<close>, or
  \<open>y\<^sub>1 + y\<^sub>2 \<in> \<int>\<close> and \<open>x\<^sub>1 - x\<^sub>2 \<in> \<int> \<setminus> 2\<int>\<close>.
\<close>

definition is_integer :: "real \<Rightarrow> bool" where
  "is_integer v \<longleftrightarrow> of_int \<lfloor>v\<rfloor> = v"

definition klein_related :: "point \<Rightarrow> point \<Rightarrow> bool" where
  "klein_related a b \<longleftrightarrow>
     (is_integer (snd a - snd b) \<and> is_integer ((fst a - fst b) / 2))
     \<or> (is_integer (snd a + snd b) \<and> is_integer (fst a - fst b)
        \<and> \<not> is_integer ((fst a - fst b) / 2))"

text \<open>
  Closeness to a multiple of \<open>d\<close> within a tolerance: the distance from \<open>v\<close> to the nearest
  multiple of \<open>d\<close> is at most \<open>atol\<close>.
\<close>

definition near_multiple :: "real \<Rightarrow> real \<Rightarrow> real \<Rightarrow> bool" where
  "near_multiple d v atol \<longleftrightarrow> \<bar>v - d * of_int (round (v / d))\<bar> \<le> atol"


text \<open>
  Two auxiliary predicates for the proofs: \<open>v\<close> lies within \<open>atol\<close> of some even integer,
  respectively of some integer.
\<close>

definition tol_even :: "real \<Rightarrow> real \<Rightarrow> bool" where
  "tol_even atol v \<longleftrightarrow> (\<exists>k::int. \<bar>v - of_int k * 2\<bar> \<le> atol)"

definition tol_int :: "real \<Rightarrow> real \<Rightarrow> bool" where
  "tol_int atol v \<longleftrightarrow> (\<exists>m::int. \<bar>v - of_int m * 1\<bar> \<le> atol)"


section \<open>The remainder in double precision\<close>

text \<open>
  The exact remainder \<open>gs_mod\<close> is always strictly below a positive divisor.  The remainder
  the array backend computes on doubles is not: for a tiny negative dividend the sum of the
  C remainder and the divisor rounds up to the divisor itself.  The definitions of this
  section model that computation; they are used where a statement depends on it.
\<close>








section \<open>Matrices\<close>

text \<open>
  A vector is the list of its entries and a matrix the list of its rows.  Entrywise sums,
  differences, products and quotients of arrays of one shape are written with \<open>map2\<close>.
\<close>

type_synonym vec = "real list"
type_synonym mat = "real list list"

text \<open>The matrix has shape \<^verbatim>\<open>(n, n)\<close>.\<close>

definition is_square :: "nat \<Rightarrow> mat \<Rightarrow> bool" where
  "is_square n M \<longleftrightarrow> length M = n \<and> (\<forall>r \<in> set M. length r = n)"

text \<open>Every entry above the diagonal is zero.\<close>

definition lower_triangular :: "mat \<Rightarrow> bool" where
  "lower_triangular M \<longleftrightarrow>
     (\<forall>i \<in> {0..<length M}. \<forall>j \<in> {0..<length M}. i < j \<longrightarrow> M ! i ! j = 0)"

text \<open>Every diagonal entry is strictly positive.\<close>

definition positive_diagonal :: "mat \<Rightarrow> bool" where
  "positive_diagonal M \<longleftrightarrow> (\<forall>i \<in> {0..<length M}. 0 < M ! i ! i)"

text \<open>The matrix of shape \<^verbatim>\<open>(n, m)\<close> whose entry at \<open>(i, j)\<close> is \<open>f i j\<close>.\<close>

definition mat_of :: "nat \<Rightarrow> nat \<Rightarrow> (nat \<Rightarrow> nat \<Rightarrow> real) \<Rightarrow> mat" where
  "mat_of n m f = map (\<lambda>i. map (\<lambda>j. f i j) [0..<m]) [0..<n]"

text \<open>The entrywise sum and difference of two matrices of one shape.\<close>

definition mat_add :: "mat \<Rightarrow> mat \<Rightarrow> mat" where
  "mat_add A B = map2 (map2 (+)) A B"

definition mat_sub :: "mat \<Rightarrow> mat \<Rightarrow> mat" where
  "mat_sub A B = map2 (map2 (-)) A B"

text \<open>
  Modelled from the spec: \<^verbatim>\<open>Matrices.diagonal\<close> (module \<^verbatim>\<open>geomstats.geometry.matrices\<close>) is
  missing from the sources; it is the vector of the diagonal entries.
\<close>

definition diagonal :: "mat \<Rightarrow> vec" where
  "diagonal M = map (\<lambda>i. M ! i ! i) [0..<length M]"

text \<open>
  Modelled from the spec: \<^verbatim>\<open>Matrices.to_strictly_lower_triangular\<close> is missing from the
  sources; it keeps the entries strictly below the diagonal and puts zero elsewhere.
\<close>

definition to_strictly_lower_triangular :: "mat \<Rightarrow> mat" where
  "to_strictly_lower_triangular M =
     mat_of (length M) (length M) (\<lambda>i j. if j < i then M ! i ! j else 0)"

text \<open>
  Modelled from the spec: \<^verbatim>\<open>gs.vec_to_diag\<close> belongs to the array backend, which is missing
  from the sources; it is the diagonal matrix with the given diagonal.
\<close>

definition vec_to_diag :: "vec \<Rightarrow> mat" where
  "vec_to_diag v = mat_of (length v) (length v) (\<lambda>i j. if i = j then v ! i else 0)"

text \<open>
  Modelled from the spec: \<^verbatim>\<open>Matrices.frobenius_product\<close> is missing from the sources; it is
  the sum of the entrywise products, so that the product of a matrix with itself is its
  squared Frobenius norm.
\<close>

definition frobenius_product :: "mat \<Rightarrow> mat \<Rightarrow> real" where
  "frobenius_product A B = sum_list (map2 (\<lambda>r s. sum_list (map2 (*) r s)) A B)"

section \<open>The Cholesky metric (\<^verbatim>\<open>positive_lower_triangular_matrices.py\<close>)\<close>

text \<open>
  \<^verbatim>\<open>CholeskyMetric.exp(tangent_vec, base_point)\<close>.  The source checks no precondition; where
  a diagonal entry of the base point is zero or the argument of a logarithm is not positive
  the arrays hold infinities or NaN, so the statements below assume positive diagonals.
\<close>

definition cholesky_exp :: "mat \<Rightarrow> mat \<Rightarrow> mat" where
  "cholesky_exp tangent_vec base_point =
     (let sl_base_point = to_strictly_lower_triangular base_point;
          sl_tangent_vec = to_strictly_lower_triangular tangent_vec;
          diag_base_point = diagonal base_point;
          diag_tangent_vec = diagonal tangent_vec;
          diag_product_expm = map exp (map2 (/) diag_tangent_vec diag_base_point);
          sl_exp = mat_add sl_base_point sl_tangent_vec;
          diag_exp = vec_to_diag (map2 (*) diag_base_point diag_product_expm)
      in mat_add sl_exp diag_exp)"

text \<open>\<^verbatim>\<open>CholeskyMetric.log(point, base_point)\<close>.\<close>

definition cholesky_log :: "mat \<Rightarrow> mat \<Rightarrow> mat" where
  "cholesky_log point base_point =
     (let sl_base_point = to_strictly_lower_triangular base_point;
          sl_point = to_strictly_lower_triangular point;
          diag_base_point = diagonal base_point;
          diag_point = diagonal point;
          diag_product_logm = map ln (map2 (/) diag_point diag_base_point);
          sl_log = mat_sub sl_point sl_base_point;
          diag_log = vec_to_diag (map2 (*) diag_base_point diag_product_logm)
      in mat_add sl_log diag_log)"

text \<open>\<^verbatim>\<open>CholeskyMetric.squared_dist(point_a, point_b)\<close>.\<close>

definition squared_dist :: "mat \<Rightarrow> mat \<Rightarrow> real" where
  "squared_dist point_a point_b =
     (let log_diag_a = map ln (diagonal point_a);
          log_diag_b = map ln (diagonal point_b);
          diag_diff = map2 (-) log_diag_a log_diag_b;
          squared_dist_diag = sum_list (map (\<lambda>d. d\<^sup>2) diag_diff);
          sl_a = to_strictly_lower_triangular point_a;
          sl_b = to_strictly_lower_triangular point_b;
          sl_diff = mat_sub sl_a sl_b;
          squared_dist_sl = frobenius_product sl_diff sl_diff
      in squared_dist_sl + squared_dist_diag)"

text \<open>
  The closed form of the squared distance in the words of the specification: the sum of the
  squared differences of the logarithms of the diagonal entries, plus the sum of the squared
  differences of the entries strictly below the diagonal.
\<close>

definition squared_dist_closed_form :: "nat \<Rightarrow> mat \<Rightarrow> mat \<Rightarrow> real" where
  "squared_dist_closed_form n a b =
     (\<Sum>i<n. (ln (a ! i ! i) - ln (b ! i ! i))\<^sup>2) + (\<Sum>i<n. \<Sum>j<i. (a ! i ! j - b ! i ! j)\<^sup>2)"


section \<open>Index patterns and sparse construction\<close>

text \<open>The exception a call can raise.\<close>

datatype error = ValueError

text \<open>The matrix equals its transpose.\<close>

definition symmetric_mat :: "mat \<Rightarrow> bool" where
  "symmetric_mat M \<longleftrightarrow>
     (\<forall>i \<in> {0..<length M}. \<forall>j \<in> {0..<length M}. M ! i ! j = M ! j ! i)"

text \<open>
  Modelled from the spec: \<^verbatim>\<open>gs.triu_indices\<close> belongs to the array backend, which is missing
  from the sources; it lists the positions on and above the diagonal, row by row.
\<close>

definition triu_indices :: "nat \<Rightarrow> (nat \<times> nat) list" where
  "triu_indices n = concat (map (\<lambda>i. map (Pair i) [i..<n]) [0..<n])"

text \<open>
  Modelled from the spec: \<^verbatim>\<open>gs.triu_to_vec\<close> belongs to the array backend, which is missing
  from the sources; it is the upper-triangular-to-vector flattening, the entries read at the
  positions \<open>triu_indices\<close>.
\<close>

definition triu_to_vec :: "mat \<Rightarrow> vec" where
  "triu_to_vec M = map (\<lambda>ix. M ! fst ix ! snd ix) (triu_indices (length M))"

text \<open>
  Modelled from the spec: \<^verbatim>\<open>gs.array_from_sparse\<close> belongs to the array backend, which is
  missing from the sources; the spec describes it as the pure function from index list,
  value list and shape to the dense array.  The dense array is the array of zeros with the
  listed values assigned, in their order, to the positions listed with them (so the last
  value stays, were a position listed more than once).
\<close>

definition array_from_sparse :: "(nat \<times> nat) list \<Rightarrow> vec \<Rightarrow> nat \<times> nat \<Rightarrow> mat" where
  "array_from_sparse indices data shape =
     mat_of (fst shape) (snd shape)
       (\<lambda>i j. case map_of (rev (zip indices data)) (i, j) of None \<Rightarrow> 0 | Some v \<Rightarrow> v)"

text \<open>
  Modelled from the spec: \<^verbatim>\<open>Matrices.transpose\<close> and \<^verbatim>\<open>Matrices.to_symmetric\<close> are missing
  from the sources; the latter is the symmetrization by averaging with the transpose,
  \<^verbatim>\<open>1 / 2 * (mat + transpose(mat))\<close>.
\<close>

definition transpose_mat :: "mat \<Rightarrow> mat" where
  "transpose_mat M = mat_of (length M) (length M) (\<lambda>i j. M ! j ! i)"

definition to_symmetric :: "mat \<Rightarrow> mat" where
  "to_symmetric M = map (map (\<lambda>x. 1 / 2 * x)) (mat_add M (transpose_mat M))"

section \<open>Symmetric matrices (\<^verbatim>\<open>symmetric_matrices.py\<close>)\<close>

text \<open>Python's \<^verbatim>\<open>int\<close> on a float: truncation towards zero.\<close>

definition py_int :: "real \<Rightarrow> int" where
  "py_int v = (if 0 \<le> v then \<lfloor>v\<rfloor> else \<lceil>v\<rceil>)"

text \<open>\<^verbatim>\<open>SymmetricMatrices.basis_representation(matrix_representation)\<close>.\<close>

definition basis_representation :: "mat \<Rightarrow> vec" where
  "basis_representation mat = triu_to_vec mat"

text \<open>
  \<^verbatim>\<open>SymmetricMatrices.matrix_representation(basis_representation)\<close> on one vector (the branch
  \<^verbatim>\<open>gs.ndim(basis_representation) == 1\<close>); the second binding of \<^verbatim>\<open>mat_dim\<close> is the integer one
  of the source.
\<close>

definition matrix_representation :: "vec \<Rightarrow> error + mat" where
  "matrix_representation basis_rep =
     (let vec_dim = length basis_rep;
          mat_dim = (sqrt (8 * real vec_dim + 1) - 1) / 2
      in if mat_dim \<noteq> of_int (py_int mat_dim) then Inl ValueError
         else
           let mat_dim = nat (py_int mat_dim);
               shape = (mat_dim, mat_dim);
               mask = mat_of mat_dim mat_dim (\<lambda>i j. 2 * 1 - (if i = j then 1 else 0));
               indices = triu_indices mat_dim;
               upper_triangular = array_from_sparse indices basis_rep shape;
               mat = map2 (map2 (*)) (to_symmetric upper_triangular) mask
           in Inr mat)"


section \<open>The unit-normed-rows diffeomorphism (\<^verbatim>\<open>positive_lower_triangular_matrices.py\<close>)\<close>

text \<open>
  Modelled from the spec: \<^verbatim>\<open>gs.tril_indices\<close> belongs to the array backend, which is missing
  from the sources; it lists the positions on and below the diagonal, row by row.
\<close>

definition tril_indices :: "nat \<Rightarrow> (nat \<times> nat) list" where
  "tril_indices n = concat (map (\<lambda>i. map (Pair i) [0..<Suc i]) [0..<n])"

text \<open>
  Modelled from the spec: \<^verbatim>\<open>gs.concatenate\<close> belongs to the array backend, which is missing
  from the sources; it joins the arrays of a sequence, and as NumPy's \<^verbatim>\<open>concatenate\<close> it
  raises \<^verbatim>\<open>ValueError\<close> on an empty sequence (``need at least one array to concatenate'').
\<close>

fun gs_concatenate :: "'a list list \<Rightarrow> error + 'a list" where
  "gs_concatenate [] = Inl ValueError"
| "gs_concatenate (x # xs) = Inr (concat (x # xs))"

text \<open>
  \<^verbatim>\<open>UnitNormedRowsPLTDiffeo.diffeomorphism(base_point)\<close> for the diffeomorphism of size \<open>n\<close>:
  the slice \<^verbatim>\<open>base_point[i, : i + 1]\<close> flipped, for the rows \<^verbatim>\<open>range(1, n)\<close>.
\<close>

definition diffeomorphism :: "nat \<Rightarrow> mat \<Rightarrow> error + vec" where
  "diffeomorphism n base_point =
     gs_concatenate (map (\<lambda>i. rev (take (i + 1) (base_point ! i))) [1..<n])"

text \<open>
  \<^verbatim>\<open>UnitNormedRowsPLTDiffeo._from_product_to_mat(vec, ones)\<close> on one vector.  Python's
  \<^verbatim>\<open>sorted\<close> is stable, also under \<^verbatim>\<open>reverse=True\<close>: the positions are sorted by descending
  row and keep their order within a row, which is the stable sort on the negated row.
\<close>

definition from_product_to_mat :: "nat \<Rightarrow> vec \<Rightarrow> bool \<Rightarrow> mat" where
  "from_product_to_mat n vec ones =
     (let flipped_vec = rev vec;
          first = (if ones then [1] else [0]);
          flipped_vec' = flipped_vec @ first;
          indices = sort_key (\<lambda>x. - int (fst x)) (tril_indices n)
      in array_from_sparse indices flipped_vec' (n, n))"

text \<open>
  \<^verbatim>\<open>inverse_diffeomorphism\<close>, \<^verbatim>\<open>tangent_diffeomorphism\<close> and
  \<^verbatim>\<open>inverse_tangent_diffeomorphism\<close> of the same class.
\<close>

definition inverse_diffeomorphism :: "nat \<Rightarrow> vec \<Rightarrow> mat" where
  "inverse_diffeomorphism n image_point = from_product_to_mat n image_point True"

definition tangent_diffeomorphism :: "nat \<Rightarrow> mat \<Rightarrow> error + vec" where
  "tangent_diffeomorphism n tangent_vec = diffeomorphism n tangent_vec"

definition inverse_tangent_diffeomorphism :: "nat \<Rightarrow> vec \<Rightarrow> mat" where
  "inverse_tangent_diffeomorphism n image_tangent_vec =
     from_product_to_mat n image_tangent_vec False"


section \<open>Regularization\<close>

lemma gs_mod_1_range: "0 \<le> gs_mod a 1 \<and> gs_mod a 1 < 1"
  unfolding gs_mod_def by (simp add: floor_less_cancel)

lemma gs_mod_1_id: "0 \<le> a \<Longrightarrow> a < 1 \<Longrightarrow> gs_mod a 1 = a"
  unfolding gs_mod_def by (simp add: floor_eq_iff)

lemma regularize_range:
  "0 \<le> fst (regularize p) \<and> fst (regularize p) < 1
   \<and> 0 \<le> snd (regularize p) \<and> snd (regularize p) < 1"
  using gs_mod_1_range by (simp add: regularize_def Let_def)

text \<open>
  C8: the regularized point of any point of the plane belongs to the unit square, both of
  its coordinates lying in the closed interval from 0 to 1.
\<close>

theorem belongs_regularize:
  "belongs (regularize p)
   \<and> 0 \<le> fst (regularize p) \<and> fst (regularize p) \<le> 1
   \<and> 0 \<le> snd (regularize p) \<and> snd (regularize p) \<le> 1"
  using regularize_range [of p] by (simp add: belongs_def)


section \<open>The equivalence test\<close>

lemma gs_mod_range: "0 < d \<Longrightarrow> 0 \<le> gs_mod v d \<and> gs_mod v d < d"
proof -
  assume d: "0 < d"
  have a: "of_int \<lfloor>v / d\<rfloor> \<le> v / d" by simp
  have b: "v / d < of_int \<lfloor>v / d\<rfloor> + 1" by linarith
  from a have "of_int \<lfloor>v / d\<rfloor> * d \<le> v"
    by (simp only: pos_le_divide_eq [OF d])
  moreover from b have "v < (of_int \<lfloor>v / d\<rfloor> + 1) * d"
    by (simp only: pos_divide_less_eq [OF d])
  ultimately show ?thesis unfolding gs_mod_def by (simp add: algebra_simps)
qed

lemma is_close_mod_iff:
  assumes d: "0 < d"
  shows "is_close_mod (gs_mod v d) d atol \<longleftrightarrow> (\<exists>k::int. \<bar>v - of_int k * d\<bar> \<le> atol)"
proof
  define q where "q = \<lfloor>v / d\<rfloor>"
  have m: "gs_mod v d = v - of_int q * d" by (simp add: gs_mod_def q_def)
  from gs_mod_range [OF d, of v] have r: "0 \<le> v - of_int q * d" "v - of_int q * d < d"
    by (simp_all add: m)
  assume "is_close_mod (gs_mod v d) d atol"
  then consider "v - of_int q * d \<le> atol" | "d - (v - of_int q * d) \<le> atol"
    using r by (auto simp: is_close_mod_def isclose_def m)
  then show "\<exists>k::int. \<bar>v - of_int k * d\<bar> \<le> atol"
  proof cases
    case 1
    with r have "\<bar>v - of_int q * d\<bar> \<le> atol" by simp
    then show ?thesis by blast
  next
    case 2
    with r have "\<bar>v - of_int (q + 1) * d\<bar> \<le> atol" by (simp add: algebra_simps)
    then show ?thesis by blast
  qed
next
  define q where "q = \<lfloor>v / d\<rfloor>"
  have m: "gs_mod v d = v - of_int q * d" by (simp add: gs_mod_def q_def)
  from gs_mod_range [OF d, of v] have r: "0 \<le> v - of_int q * d" "v - of_int q * d < d"
    by (simp_all add: m)
  assume "\<exists>k::int. \<bar>v - of_int k * d\<bar> \<le> atol"
  then obtain k :: int where k: "\<bar>v - of_int k * d\<bar> \<le> atol" by blast
  show "is_close_mod (gs_mod v d) d atol"
  proof (cases "k \<le> q")
    case True
    then have "of_int k * d \<le> of_int q * d" using d by simp
    with k r have "v - of_int q * d \<le> atol" by linarith
    with r show ?thesis by (simp add: is_close_mod_def isclose_def m)
  next
    case False
    then have "q + 1 \<le> k" by simp
    then have "(of_int (q + 1) :: real) \<le> of_int k" by (simp only: of_int_le_iff)
    then have "of_int (q + 1) * d \<le> of_int k * d" using d by (simp only: mult_le_cancel_right_pos)
    then have "of_int q * d + d \<le> of_int k * d" by (simp add: algebra_simps)
    with k r have "d - (v - of_int q * d) \<le> atol" by linarith
    with r show ?thesis by (simp add: is_close_mod_def isclose_def m)
  qed
qed

lemma equivalent_tol:
  "equivalent a b atol \<longleftrightarrow>
     (tol_even atol (fst a - fst b) \<and> tol_int atol (snd a - snd b))
     \<or> (tol_even atol (fst a - fst b - 1) \<and> tol_int atol (snd a + snd b))"
  by (simp only: equivalent_def Let_def is_close_mod_iff zero_less_numeral zero_less_one
      tol_even_def tol_int_def)

lemma tol_even_shift: "tol_even atol (v + 2 * of_int t) = tol_even atol v"
proof
  assume "tol_even atol (v + 2 * of_int t)"
  then obtain k :: int where "\<bar>v + 2 * of_int t - of_int k * 2\<bar> \<le> atol"
    by (auto simp: tol_even_def)
  then have "\<bar>v - of_int (k - t) * 2\<bar> \<le> atol" by (simp add: algebra_simps)
  then show "tol_even atol v" unfolding tol_even_def by blast
next
  assume "tol_even atol v"
  then obtain k :: int where "\<bar>v - of_int k * 2\<bar> \<le> atol" by (auto simp: tol_even_def)
  then have "\<bar>v + 2 * of_int t - of_int (k + t) * 2\<bar> \<le> atol" by (simp add: algebra_simps)
  then show "tol_even atol (v + 2 * of_int t)" unfolding tol_even_def by blast
qed

lemma tol_int_shift: "tol_int atol (v + of_int j) = tol_int atol v"
proof
  assume "tol_int atol (v + of_int j)"
  then obtain k :: int where "\<bar>v + of_int j - of_int k * 1\<bar> \<le> atol"
    by (auto simp: tol_int_def)
  then have "\<bar>v - of_int (k - j) * 1\<bar> \<le> atol" by (simp add: algebra_simps)
  then show "tol_int atol v" unfolding tol_int_def by blast
next
  assume "tol_int atol v"
  then obtain k :: int where "\<bar>v - of_int k * 1\<bar> \<le> atol" by (auto simp: tol_int_def)
  then have "\<bar>v + of_int j - of_int (k + j) * 1\<bar> \<le> atol" by (simp add: algebra_simps)
  then show "tol_int atol (v + of_int j)" unfolding tol_int_def by blast
qed

lemma tol_int_neg: "tol_int atol (- v) = tol_int atol v"
proof -
  have *: "tol_int atol (- w)" if "tol_int atol w" for w
  proof -
    from that obtain k :: int where "\<bar>w - of_int k * 1\<bar> \<le> atol" by (auto simp: tol_int_def)
    then have "\<bar>- w - of_int (- k) * 1\<bar> \<le> atol" by simp
    then show ?thesis unfolding tol_int_def by blast
  qed
  show ?thesis using * [of v] * [of "- v"] by auto
qed

lemma equivalent_left_even:
  "equivalent (x - 2 * of_int t, y - of_int j) b atol = equivalent (x, y) b atol"
proof -
  have 1: "tol_even atol (x - 2 * of_int t - fst b) = tol_even atol (x - fst b)"
    using tol_even_shift [of atol "x - fst b" "- t"] by (simp add: algebra_simps)
  have 2: "tol_even atol (x - 2 * of_int t - fst b - 1) = tol_even atol (x - fst b - 1)"
    using tol_even_shift [of atol "x - fst b - 1" "- t"] by (simp add: algebra_simps)
  have 3: "tol_int atol (y - of_int j - snd b) = tol_int atol (y - snd b)"
    using tol_int_shift [of atol "y - snd b" "- j"] by (simp add: algebra_simps)
  have 4: "tol_int atol (y - of_int j + snd b) = tol_int atol (y + snd b)"
    using tol_int_shift [of atol "y + snd b" "- j"] by (simp add: algebra_simps)
  show ?thesis
    unfolding equivalent_tol fst_conv snd_conv by (simp only: 1 2 3 4)
qed

lemma equivalent_left_odd:
  "equivalent (x - (2 * of_int t + 1), of_int j - y) b atol = equivalent (x, y) b atol"
proof -
  have 1: "tol_even atol (x - (2 * of_int t + 1) - fst b) = tol_even atol (x - fst b - 1)"
    using tol_even_shift [of atol "x - fst b - 1" "- t"] by (simp add: algebra_simps)
  have 2: "tol_even atol (x - (2 * of_int t + 1) - fst b - 1) = tol_even atol (x - fst b)"
    using tol_even_shift [of atol "x - fst b" "- t - 1"] by (simp add: algebra_simps)
  have 3: "tol_int atol (of_int j - y - snd b) = tol_int atol (y + snd b)"
    using tol_int_shift [of atol "- (y + snd b)" j] tol_int_neg [of atol "y + snd b"]
    by (simp add: algebra_simps)
  have 4: "tol_int atol (of_int j - y + snd b) = tol_int atol (y - snd b)"
    using tol_int_shift [of atol "- (y - snd b)" j] tol_int_neg [of atol "y - snd b"]
    by (simp add: algebra_simps)
  show ?thesis
    unfolding equivalent_tol fst_conv snd_conv by (simp only: 1 2 3 4) blast
qed

lemma equivalent_right_even:
  "equivalent a (x - 2 * of_int t, y - of_int j) atol = equivalent a (x, y) atol"
proof -
  have 1: "tol_even atol (fst a - (x - 2 * of_int t)) = tol_even atol (fst a - x)"
    using tol_even_shift [of atol "fst a - x" t] by (simp add: algebra_simps)
  have 2: "tol_even atol (fst a - (x - 2 * of_int t) - 1) = tol_even atol (fst a - x - 1)"
    using tol_even_shift [of atol "fst a - x - 1" t] by (simp add: algebra_simps)
  have 3: "tol_int atol (snd a - (y - of_int j)) = tol_int atol (snd a - y)"
    using tol_int_shift [of atol "snd a - y" j] by (simp add: algebra_simps)
  have 4: "tol_int atol (snd a + (y - of_int j)) = tol_int atol (snd a + y)"
    using tol_int_shift [of atol "snd a + y" "- j"] by (simp add: algebra_simps)
  show ?thesis
    unfolding equivalent_tol fst_conv snd_conv by (simp only: 1 2 3 4)
qed

lemma equivalent_right_odd:
  "equivalent a (x - (2 * of_int t + 1), of_int j - y) atol = equivalent a (x, y) atol"
proof -
  have 1: "tol_even atol (fst a - (x - (2 * of_int t + 1))) = tol_even atol (fst a - x - 1)"
    using tol_even_shift [of atol "fst a - x - 1" "t + 1"] by (simp add: algebra_simps)
  have 2: "tol_even atol (fst a - (x - (2 * of_int t + 1)) - 1) = tol_even atol (fst a - x)"
    using tol_even_shift [of atol "fst a - x" t] by (simp add: algebra_simps)
  have 3: "tol_int atol (snd a - (of_int j - y)) = tol_int atol (snd a + y)"
    using tol_int_shift [of atol "snd a + y" "- j"] by (simp add: algebra_simps)
  have 4: "tol_int atol (snd a + (of_int j - y)) = tol_int atol (snd a - y)"
    using tol_int_shift [of atol "snd a - y" j] by (simp add: algebra_simps)
  show ?thesis
    unfolding equivalent_tol fst_conv snd_conv by (simp only: 1 2 3 4) blast
qed

lemma equivalent_refl: "0 \<le> atol \<Longrightarrow> equivalent p p atol"
proof -
  assume a: "0 \<le> atol"
  have "tol_even atol 0" unfolding tol_even_def using a by (intro exI [of _ 0]) simp
  moreover have "tol_int atol 0" unfolding tol_int_def using a by (intro exI [of _ 0]) simp
  ultimately show ?thesis by (simp add: equivalent_tol)
qed

text \<open>The regularized point differs from the point by a deck transformation.\<close>

lemma regularize_form:
  "(\<exists>t j. regularize p = (fst p - 2 * of_int t, snd p - of_int j))
   \<or> (\<exists>t j. regularize p = (fst p - (2 * of_int t + 1), of_int j - snd p))"
proof (cases "\<bar>\<lfloor>fst p\<rfloor>\<bar> mod 2 = 0")
  case True
  then have "even \<lfloor>fst p\<rfloor>" by presburger
  then obtain t where t: "\<lfloor>fst p\<rfloor> = 2 * t" by (auto elim: evenE)
  have "regularize p = (fst p - 2 * of_int t, snd p - of_int \<lfloor>snd p\<rfloor>)"
    using True by (simp add: regularize_def Let_def gs_mod_def t)
  then show ?thesis by blast
next
  case False
  then have "odd \<lfloor>fst p\<rfloor>" by presburger
  then obtain t where t: "\<lfloor>fst p\<rfloor> = 2 * t + 1" by (auto elim: oddE)
  define j where "j = 1 + \<lfloor>snd p\<rfloor> - \<lfloor>1 - (snd p - of_int \<lfloor>snd p\<rfloor>)\<rfloor>"
  have "regularize p = (fst p - (2 * of_int t + 1), of_int j - snd p)"
    using False by (simp add: regularize_def Let_def gs_mod_def t j_def)
  then show ?thesis by blast
qed

lemma equivalent_regularize_left: "equivalent (regularize p) b atol = equivalent p b atol"
  using regularize_form [of p] equivalent_left_even [of "fst p" _ "snd p" _ b atol]
    equivalent_left_odd [of "fst p" _ _ "snd p" b atol]
  by (cases p) auto

lemma equivalent_regularize_right: "equivalent a (regularize p) atol = equivalent a p atol"
  using regularize_form [of p] equivalent_right_even [of a "fst p" _ "snd p" _ atol]
    equivalent_right_odd [of a "fst p" _ _ "snd p" atol]
  by (cases p) auto

text \<open>
  C6: two points are equivalent exactly when their regularized points are, at every
  tolerance; and every point is equivalent to itself at every non-negative tolerance.
\<close>

theorem equivalent_regularize_consistent:
  "equivalent p q atol = equivalent (regularize p) (regularize q) atol
   \<and> (0 \<le> atol \<longrightarrow> equivalent p p atol)"
  by (simp add: equivalent_regularize_left equivalent_regularize_right equivalent_refl)

lemma near_multiple_iff:
  assumes d: "0 < d"
  shows "near_multiple d v atol \<longleftrightarrow> (\<exists>k::int. \<bar>v - of_int k * d\<bar> \<le> atol)"
proof
  assume "near_multiple d v atol"
  then have "\<bar>v - of_int (round (v / d)) * d\<bar> \<le> atol"
    by (simp add: near_multiple_def mult.commute)
  then show "\<exists>k::int. \<bar>v - of_int k * d\<bar> \<le> atol" by blast
next
  assume "\<exists>k::int. \<bar>v - of_int k * d\<bar> \<le> atol"
  then obtain k :: int where k: "\<bar>v - of_int k * d\<bar> \<le> atol" by blast
  have sc: "\<bar>v - d * of_int m\<bar> = d * \<bar>v / d - of_int m\<bar>" for m :: int
  proof -
    have "v - d * of_int m = d * (v / d - of_int m)" using d by (simp add: algebra_simps)
    then show ?thesis using d by (simp only: abs_mult abs_of_pos)
  qed
  have "\<bar>v / d - of_int (round (v / d))\<bar> \<le> \<bar>v / d - of_int k\<bar>"
    by (rule round_diff_minimal)
  then have "d * \<bar>v / d - of_int (round (v / d))\<bar> \<le> d * \<bar>v / d - of_int k\<bar>"
    using d by (simp only: mult_le_cancel_left_pos)
  then have "\<bar>v - d * of_int (round (v / d))\<bar> \<le> \<bar>v - d * of_int k\<bar>"
    by (simp only: sc)
  with k show "near_multiple d v atol" by (simp add: near_multiple_def mult.commute)
qed

lemma tol_even_near: "tol_even atol v = near_multiple 2 v atol"
  by (simp add: tol_even_def near_multiple_iff)

lemma tol_int_near: "tol_int atol v = near_multiple 1 v atol"
  by (simp add: tol_int_def near_multiple_iff)

lemma is_integer_of_int: "is_integer (of_int m)"
  by (simp only: is_integer_def floor_of_int)

lemma tol_int_exact: "tol_int 0 v = is_integer v"
proof
  assume "tol_int 0 v"
  then obtain m :: int where "v = of_int m" by (auto simp: tol_int_def)
  then show "is_integer v" by (simp only: is_integer_of_int)
next
  assume "is_integer v"
  then have "of_int \<lfloor>v\<rfloor> = v" unfolding is_integer_def .
  then have "\<bar>v - of_int \<lfloor>v\<rfloor> * 1\<bar> \<le> 0" by linarith
  then show "tol_int 0 v" unfolding tol_int_def by blast
qed

lemma tol_even_exact: "tol_even 0 v = is_integer (v / 2)"
proof
  assume "tol_even 0 v"
  then obtain k :: int where "v = of_int k * 2" by (auto simp: tol_even_def)
  then have "v / 2 = of_int k" by simp
  then show "is_integer (v / 2)" by (simp only: is_integer_of_int)
next
  assume "is_integer (v / 2)"
  then have "of_int \<lfloor>v / 2\<rfloor> = v / 2" unfolding is_integer_def .
  then have "\<bar>v - of_int \<lfloor>v / 2\<rfloor> * 2\<bar> \<le> 0" by linarith
  then show "tol_even 0 v" unfolding tol_even_def by blast
qed

lemma tol_odd_exact: "tol_even 0 (v - 1) = (is_integer v \<and> \<not> is_integer (v / 2))"
proof
  assume "tol_even 0 (v - 1)"
  then obtain k :: int where "v - 1 = of_int k * 2" by (auto simp: tol_even_def)
  then have v: "v = of_int (2 * k + 1)" by simp
  have "is_integer v" by (simp only: v is_integer_of_int)
  moreover have "\<not> is_integer (v / 2)"
  proof
    assume "is_integer (v / 2)"
    then obtain m :: int where "v / 2 = of_int m" unfolding is_integer_def by metis
    then have "v = of_int (2 * m)" by simp
    with v have "(of_int (2 * m) :: real) = of_int (2 * k + 1)" by simp
    then have "2 * m = 2 * k + 1" by (simp only: of_int_eq_iff)
    then show False by presburger
  qed
  ultimately show "is_integer v \<and> \<not> is_integer (v / 2)" by simp
next
  assume a: "is_integer v \<and> \<not> is_integer (v / 2)"
  then have "of_int \<lfloor>v\<rfloor> = v" unfolding is_integer_def by blast
  then have v: "v = of_int \<lfloor>v\<rfloor>" by (rule sym)
  have "odd \<lfloor>v\<rfloor>"
  proof
    assume "even \<lfloor>v\<rfloor>"
    then obtain t where t: "\<lfloor>v\<rfloor> = 2 * t" by (auto elim: evenE)
    have "v / 2 = of_int t" by (subst v) (simp add: t)
    then have "is_integer (v / 2)" by (simp only: is_integer_of_int)
    with a show False by simp
  qed
  then obtain t where t: "\<lfloor>v\<rfloor> = 2 * t + 1" by (auto elim: oddE)
  have "v - 1 = of_int t * 2" by (subst v) (simp add: t)
  then have "\<bar>v - 1 - of_int t * 2\<bar> \<le> 0" by simp
  then show "tol_even 0 (v - 1)" unfolding tol_even_def by blast
qed

lemma equivalent_exact: "equivalent a b 0 = klein_related a b"
proof -
  have 1: "tol_even 0 (fst a - fst b - 1)
           = (is_integer (fst a - fst b) \<and> \<not> is_integer ((fst a - fst b) / 2))"
    by (rule tol_odd_exact)
  have 2: "tol_even 0 (fst a - fst b) = is_integer ((fst a - fst b) / 2)"
    by (rule tol_even_exact)
  show ?thesis
    unfolding equivalent_tol klein_related_def 1 2 tol_int_exact by blast
qed

text \<open>
  C5: \<^verbatim>\<open>equivalent\<close> holds iff, within the tolerance, the x-difference is an even integer and
  the y-difference an integer, or the x-difference is an odd integer and the y-sum an
  integer; at tolerance zero this is the relation of the class documentation.  The points
  \<open>(0, 0)\<close> and \<open>(2, 0)\<close> are equivalent, the points \<open>(0, 0)\<close> and \<open>(1, 1/2)\<close> are not.
\<close>

theorem equivalent_characterisation:
  "(equivalent a b atol \<longleftrightarrow>
      (near_multiple 2 (fst a - fst b) atol \<and> near_multiple 1 (snd a - snd b) atol)
      \<or> (near_multiple 2 (fst a - fst b - 1) atol \<and> near_multiple 1 (snd a + snd b) atol))
   \<and> (equivalent a b 0 \<longleftrightarrow> klein_related a b)
   \<and> (0 \<le> atol \<longrightarrow> equivalent (0, 0) (2, 0) atol)
   \<and> (atol < 1 / 2 \<longrightarrow> \<not> equivalent (0, 0) (1, 1 / 2) atol)"
proof (intro conjI impI)
  show "equivalent a b atol \<longleftrightarrow>
      (near_multiple 2 (fst a - fst b) atol \<and> near_multiple 1 (snd a - snd b) atol)
      \<or> (near_multiple 2 (fst a - fst b - 1) atol \<and> near_multiple 1 (snd a + snd b) atol)"
    by (simp only: equivalent_tol tol_even_near tol_int_near)
  show "equivalent a b 0 \<longleftrightarrow> klein_related a b" by (rule equivalent_exact)
  show "equivalent (0, 0) (2, 0) atol" if "0 \<le> atol"
    using that by (simp add: equivalent_def is_close_mod_def isclose_def gs_mod_def)
  show "\<not> equivalent (0, 0) (1, 1 / 2) atol" if "atol < 1 / 2"
    using that by (simp add: equivalent_def is_close_mod_def isclose_def gs_mod_def)
qed

theorem equivalent_characterisation_witness:
  "equivalent (0, 0) (2, 0) (1 / 10 ^ 12) \<and> \<not> equivalent (0, 0) (1, 1 / 2) (1 / 10 ^ 12)"
proof -
  have h1: "(0::real) \<le> 1 / 10 ^ 12" by simp
  have h2: "(1::real) / 10 ^ 12 < 1 / 2" by simp
  from equivalent_characterisation [where atol = "1 / 10 ^ 12" and a = "(0, 0)" and b = "(2, 0)"]
    h1 h2 show ?thesis by blast
qed

theorem equivalent_regularize_consistent_witness:
  "equivalent (3 / 2, 3 / 10) (1 / 2, 7 / 10) (1 / 10 ^ 12)
     = equivalent (regularize (3 / 2, 3 / 10)) (regularize (1 / 2, 7 / 10)) (1 / 10 ^ 12)
   \<and> equivalent (3 / 2, 3 / 10) (3 / 2, 3 / 10) (1 / 10 ^ 12)"
proof -
  have h: "(0::real) \<le> 1 / 10 ^ 12" by simp
  from equivalent_regularize_consistent
      [where atol = "1 / 10 ^ 12" and p = "(3 / 2, 3 / 10)" and q = "(1 / 2, 7 / 10)"] h
  show ?thesis by blast
qed


section \<open>Closest representative, exponential and logarithm\<close>

lemma argmin_less: "xs \<noteq> [] \<Longrightarrow> argmin xs < length xs"
  by (induction xs rule: argmin.induct) (auto simp: Let_def)

lemma argmin_le: "i < length xs \<Longrightarrow> xs ! argmin xs \<le> xs ! i"
proof (induction xs arbitrary: i rule: argmin.induct)
  case 1
  then show ?case by simp
next
  case (2 x)
  then show ?case by simp
next
  case (3 x y ys)
  show ?case
  proof (cases i)
    case 0
    then show ?thesis by (auto simp: Let_def)
  next
    case (Suc j)
    with "3.prems" have j: "j < length (y # ys)" by simp
    from "3.IH" [OF j] have "(y # ys) ! argmin (y # ys) \<le> (y # ys) ! j" .
    then show ?thesis using Suc by (auto simp: Let_def)
  qed
qed

lemma length_p2_total: "length (p2_total p) = 9"
  by (simp add: p2_total_def)

lemma closest_index:
  "argmin (map (\<lambda>c. sqdist c q) (p2_total p)) < length (p2_total p)"
proof -
  have "map (\<lambda>c. sqdist c q) (p2_total p) \<noteq> []"
    using length_p2_total [of p] by (simp only: map_is_Nil_conv) auto
  from argmin_less [OF this] show ?thesis by (simp only: length_map)
qed

lemma snd_closest:
  "snd (closest_representative a b)
   = p2_total (regularize b) ! argmin (map (\<lambda>c. sqdist c (regularize a)) (p2_total (regularize b)))"
  by (simp only: closest_representative_def Let_def snd_conv)

lemma closest_in_total:
  "snd (closest_representative a b) \<in> set (p2_total (regularize b))"
  unfolding snd_closest by (rule nth_mem) (rule closest_index)

lemma closest_minimal:
  assumes "c \<in> set (p2_total (regularize b))"
  shows "sqdist (snd (closest_representative a b)) (regularize a) \<le> sqdist c (regularize a)"
proof -
  define tot where "tot = p2_total (regularize b)"
  define ds where "ds = map (\<lambda>c. sqdist c (regularize a)) tot"
  from assms obtain i where i: "i < length tot" "tot ! i = c"
    unfolding tot_def by (auto simp: in_set_conv_nth)
  have l: "argmin ds < length tot" unfolding ds_def tot_def by (rule closest_index)
  have "i < length ds" using i by (simp add: ds_def)
  then have "ds ! argmin ds \<le> ds ! i" by (rule argmin_le)
  then have "sqdist (tot ! argmin ds) (regularize a) \<le> sqdist (tot ! i) (regularize a)"
    using i l by (simp add: ds_def)
  then show ?thesis unfolding snd_closest using i by (simp only: tot_def ds_def)
qed

lemma set_p2_total:
  "set (p2_total (x, y)) =
     {(x, y), (x, y - 1), (x, y + 1),
      (x + 1, 1 - y), (x + 1, 2 - y), (x + 1, 0 - y),
      (x - 1, 1 - y), (x - 1, 2 - y), (x - 1, 0 - y)}"
  unfolding p2_total_def fst_conv snd_conv by (simp only: list.set)

lemma total_equivalent:
  assumes "c \<in> set (p2_total p)"
  shows "equivalent c b atol = equivalent p b atol"
proof -
  obtain x y where p: "p = (x, y)" by (cases p)
  have e: "equivalent (x - 2 * of_int t, y - of_int j) b atol = equivalent (x, y) b atol" for t j
    by (rule equivalent_left_even)
  have o: "equivalent (x - (2 * of_int t + 1), of_int j - y) b atol = equivalent (x, y) b atol"
    for t j by (rule equivalent_left_odd)
  have c2: "equivalent (x, y - 1) b atol = equivalent (x, y) b atol" using e [of 0 1] by simp
  have c3: "equivalent (x, y + 1) b atol = equivalent (x, y) b atol" using e [of 0 "- 1"] by simp
  have c4: "equivalent (x + 1, 1 - y) b atol = equivalent (x, y) b atol"
    using o [of "- 1" 1] by simp
  have c5: "equivalent (x + 1, 2 - y) b atol = equivalent (x, y) b atol"
    using o [of "- 1" 2] by simp
  have c6: "equivalent (x + 1, 0 - y) b atol = equivalent (x, y) b atol"
    using o [of "- 1" 0] by simp
  have c7: "equivalent (x - 1, 1 - y) b atol = equivalent (x, y) b atol"
    using o [of 0 1] by simp
  have c8: "equivalent (x - 1, 2 - y) b atol = equivalent (x, y) b atol"
    using o [of 0 2] by simp
  have c9: "equivalent (x - 1, 0 - y) b atol = equivalent (x, y) b atol"
    using o [of 0 0] by simp
  from assms have "c \<in> {(x, y), (x, y - 1), (x, y + 1),
      (x + 1, 1 - y), (x + 1, 2 - y), (x + 1, 0 - y),
      (x - 1, 1 - y), (x - 1, 2 - y), (x - 1, 0 - y)}"
    by (simp only: p set_p2_total)
  then show ?thesis
    unfolding p using c2 c3 c4 c5 c6 c7 c8 c9 by blast
qed

lemma closest_equivalent:
  "equivalent (snd (closest_representative a b)) q atol = equivalent b q atol"
  using total_equivalent [OF closest_in_total, of a b q atol]
  by (simp only: equivalent_regularize_left)

lemma exp_log_eq: "kb_exp (kb_log point base_point) base_point
                   = regularize (snd (closest_representative base_point point))"
proof -
  obtain m where c: "closest_representative base_point point = (regularize base_point, m)"
    by (simp add: closest_representative_def Let_def)
  have "padd (regularize base_point) (psub m (regularize base_point)) = m"
    by (simp add: padd_def psub_def)
  then show ?thesis by (simp add: kb_exp_def kb_log_def c Let_def)
qed

text \<open>
  C1: for every base point and every point of the plane, the exponential at the base point of
  the logarithm of the point is equivalent to the point, at every non-negative tolerance.
\<close>

theorem exp_log_equivalent:
  "0 \<le> atol \<Longrightarrow> equivalent (kb_exp (kb_log point base_point) base_point) point atol"
  by (simp only: exp_log_eq equivalent_regularize_left closest_equivalent equivalent_refl)

theorem exp_log_equivalent_witness:
  "(0::real) \<le> 1 / 10 ^ 12
   \<and> equivalent (kb_exp (kb_log (3 / 2, 3 / 10) (1 / 4, 1 / 4)) (1 / 4, 1 / 4)) (3 / 2, 3 / 10)
       (1 / 10 ^ 12)"
proof -
  have h: "(0::real) \<le> 1 / 10 ^ 12" by simp
  from h exp_log_equivalent [OF h, of "(3 / 2, 3 / 10)" "(1 / 4, 1 / 4)"]
  show ?thesis by (rule conjI)
qed

subsection \<open>Optimality of the nine-candidate search\<close>

lemma of_int_ge_1: "1 \<le> k \<Longrightarrow> (1::real) \<le> of_int k"
  by simp

lemma of_int_le_m1: "k \<le> - 1 \<Longrightarrow> (of_int k :: real) \<le> - 1"
proof -
  assume "k \<le> - 1"
  then have "(of_int k :: real) \<le> of_int (- 1)" by (simp only: of_int_le_iff)
  then show ?thesis by simp
qed

lemma abs_shift_x_even:
  assumes "- 1 < (d::real)" "d < 1"
  shows "\<bar>d\<bar> \<le> \<bar>d + 2 * of_int k\<bar>"
proof -
  consider "k \<le> - 1" | "k = 0" | "1 \<le> k" by linarith
  then show ?thesis
  proof cases
    case 1
    from of_int_le_m1 [OF 1] assms show ?thesis by linarith
  next
    case 2
    then show ?thesis by simp
  next
    case 3
    from of_int_ge_1 [OF 3] assms show ?thesis by linarith
  qed
qed

lemma abs_shift_y_even:
  assumes "- 1 < (d::real)" "d < 1"
  shows "\<bar>d\<bar> \<le> \<bar>d + of_int m\<bar> \<or> \<bar>d - 1\<bar> \<le> \<bar>d + of_int m\<bar> \<or> \<bar>d + 1\<bar> \<le> \<bar>d + of_int m\<bar>"
proof -
  consider "m \<le> - 2" | "m = - 1" | "m = 0" | "m = 1" | "2 \<le> m" by linarith
  then show ?thesis
  proof cases
    case 1
    then have "m + 1 \<le> - 1" by simp
    from of_int_le_m1 [OF this] have "(of_int m :: real) \<le> - 2" by simp
    with assms show ?thesis by linarith
  next
    case 2
    then show ?thesis by simp
  next
    case 3
    then show ?thesis by simp
  next
    case 4
    then show ?thesis by simp
  next
    case 5
    then have "1 \<le> m - 1" by simp
    from of_int_ge_1 [OF this] have "(2::real) \<le> of_int m" by simp
    with assms show ?thesis by linarith
  qed
qed

lemma abs_shift_x_odd:
  assumes "- 1 < (d::real)" "d < 1"
  shows "\<bar>d + 1\<bar> \<le> \<bar>d + 1 + 2 * of_int k\<bar> \<or> \<bar>d - 1\<bar> \<le> \<bar>d + 1 + 2 * of_int k\<bar>"
proof -
  consider "k \<le> - 2" | "k = - 1" | "k = 0" | "1 \<le> k" by linarith
  then show ?thesis
  proof cases
    case 1
    then have "k + 1 \<le> - 1" by simp
    from of_int_le_m1 [OF this] have "(of_int k :: real) \<le> - 2" by simp
    with assms show ?thesis by linarith
  next
    case 2
    then show ?thesis by simp
  next
    case 3
    then show ?thesis by simp
  next
    case 4
    from of_int_ge_1 [OF 4] assms show ?thesis by linarith
  qed
qed

lemma abs_shift_y_odd:
  assumes "- 2 < (e::real)" "e \<le> 0"
  shows "\<bar>e\<bar> \<le> \<bar>e + of_int m\<bar> \<or> \<bar>e + 1\<bar> \<le> \<bar>e + of_int m\<bar> \<or> \<bar>e + 2\<bar> \<le> \<bar>e + of_int m\<bar>"
proof -
  consider "m \<le> - 1" | "m = 0" | "m = 1" | "m = 2" | "3 \<le> m" by linarith
  then show ?thesis
  proof cases
    case 1
    from of_int_le_m1 [OF 1] assms show ?thesis by linarith
  next
    case 2
    then show ?thesis by simp
  next
    case 3
    then show ?thesis by simp
  next
    case 4
    then show ?thesis by simp
  next
    case 5
    then have "1 \<le> m - 2" by simp
    from of_int_ge_1 [OF this] have "(3::real) \<le> of_int m" by simp
    with assms show ?thesis by linarith
  qed
qed

lemma sqdist_mono:
  assumes "\<bar>cx - x1\<bar> \<le> \<bar>rx - (x1::real)\<bar>" "\<bar>cy - y1\<bar> \<le> \<bar>ry - y1\<bar>"
  shows "sqdist (cx, cy) (x1, y1) \<le> sqdist (rx, ry) (x1, y1)"
proof -
  from assms have "(cx - x1)\<^sup>2 \<le> (rx - x1)\<^sup>2" "(cy - y1)\<^sup>2 \<le> (ry - y1)\<^sup>2"
    by (simp_all only: abs_le_square_iff)
  then show ?thesis unfolding sqdist_def fst_conv snd_conv by (rule add_mono)
qed


lemma equivalent_zero_form:
  assumes "equivalent r (x2, y2) 0"
  shows "(\<exists>k m. r = (x2 + 2 * of_int k, y2 + of_int m))
         \<or> (\<exists>k m. r = (x2 + 1 + 2 * of_int k, of_int m - y2))"
proof -
  from assms consider
      (even) k m :: int where "\<bar>fst r - x2 - of_int k * 2\<bar> \<le> 0" "\<bar>snd r - y2 - of_int m * 1\<bar> \<le> 0"
    | (odd) k m :: int where "\<bar>fst r - x2 - 1 - of_int k * 2\<bar> \<le> 0" "\<bar>snd r + y2 - of_int m * 1\<bar> \<le> 0"
    unfolding equivalent_tol tol_even_def tol_int_def fst_conv snd_conv by blast
  then show ?thesis
  proof cases
    case even
    then have "fst r = x2 + 2 * of_int k" "snd r = y2 + of_int m" by linarith+
    then have "r = (x2 + 2 * of_int k, y2 + of_int m)" by (simp add: prod_eq_iff)
    then show ?thesis by blast
  next
    case odd
    then have "fst r = x2 + 1 + 2 * of_int k" "snd r = of_int m - y2" by linarith+
    then have "r = (x2 + 1 + 2 * of_int k, of_int m - y2)" by (simp add: prod_eq_iff)
    then show ?thesis by blast
  qed
qed

lemma dominate_even:
  assumes "0 \<le> x1" "x1 < 1" "0 \<le> y1" "y1 < 1" "0 \<le> x2" "x2 < 1" "0 \<le> y2" "y2 < 1"
  shows "\<exists>c \<in> set (p2_total (x2, y2)).
           sqdist c (x1, y1) \<le> sqdist (x2 + 2 * of_int k, y2 + of_int m) (x1, y1)"
proof -
  have dx: "- 1 < x2 - x1" "x2 - x1 < 1" and dy: "- 1 < y2 - y1" "y2 - y1 < 1"
    using assms by linarith+
  have X: "\<bar>x2 - x1\<bar> \<le> \<bar>x2 + 2 * of_int k - x1\<bar>"
    using abs_shift_x_even [OF dx, of k] by (simp add: algebra_simps)
  from abs_shift_y_even [OF dy, of m] consider
      (a) "\<bar>y2 - y1\<bar> \<le> \<bar>y2 + of_int m - y1\<bar>"
    | (b) "\<bar>y2 - 1 - y1\<bar> \<le> \<bar>y2 + of_int m - y1\<bar>"
    | (c) "\<bar>y2 + 1 - y1\<bar> \<le> \<bar>y2 + of_int m - y1\<bar>"
    by (auto simp add: algebra_simps)
  then show ?thesis
  proof cases
    case a
    have "(x2, y2) \<in> set (p2_total (x2, y2))" unfolding set_p2_total by blast
    with sqdist_mono [OF X a] show ?thesis by blast
  next
    case b
    have "(x2, y2 - 1) \<in> set (p2_total (x2, y2))" unfolding set_p2_total by blast
    with sqdist_mono [OF X b] show ?thesis by blast
  next
    case c
    have "(x2, y2 + 1) \<in> set (p2_total (x2, y2))" unfolding set_p2_total by blast
    with sqdist_mono [OF X c] show ?thesis by blast
  qed
qed

lemma dominate_odd:
  assumes "0 \<le> x1" "x1 < 1" "0 \<le> y1" "y1 < 1" "0 \<le> x2" "x2 < 1" "0 \<le> y2" "y2 < 1"
  shows "\<exists>c \<in> set (p2_total (x2, y2)).
           sqdist c (x1, y1) \<le> sqdist (x2 + 1 + 2 * of_int k, of_int m - y2) (x1, y1)"
proof -
  have dx: "- 1 < x2 - x1" "x2 - x1 < 1" and dy: "- 2 < - y2 - y1" "- y2 - y1 \<le> 0"
    using assms by linarith+
  from abs_shift_y_odd [OF dy, of m] consider
      (a) "\<bar>0 - y2 - y1\<bar> \<le> \<bar>of_int m - y2 - y1\<bar>"
    | (b) "\<bar>1 - y2 - y1\<bar> \<le> \<bar>of_int m - y2 - y1\<bar>"
    | (c) "\<bar>2 - y2 - y1\<bar> \<le> \<bar>of_int m - y2 - y1\<bar>"
    by (auto simp add: algebra_simps)
  then obtain t :: real where t: "t = 0 \<or> t = 1 \<or> t = 2"
      and Y: "\<bar>t - y2 - y1\<bar> \<le> \<bar>of_int m - y2 - y1\<bar>"
    by blast
  from abs_shift_x_odd [OF dx, of k] consider
      (p) "\<bar>x2 + 1 - x1\<bar> \<le> \<bar>x2 + 1 + 2 * of_int k - x1\<bar>"
    | (n) "\<bar>x2 - 1 - x1\<bar> \<le> \<bar>x2 + 1 + 2 * of_int k - x1\<bar>"
    by (auto simp add: algebra_simps)
  then show ?thesis
  proof cases
    case p
    have "(x2 + 1, t - y2) \<in> set (p2_total (x2, y2))" unfolding set_p2_total using t by blast
    with sqdist_mono [OF p Y] show ?thesis by blast
  next
    case n
    have "(x2 - 1, t - y2) \<in> set (p2_total (x2, y2))" unfolding set_p2_total using t by blast
    with sqdist_mono [OF n Y] show ?thesis by blast
  qed
qed

lemma dominate:
  assumes "klein_related r point"
  shows "\<exists>c \<in> set (p2_total (regularize point)).
           sqdist c (regularize base_point) \<le> sqdist r (regularize base_point)"
proof -
  obtain x1 y1 where p1: "regularize base_point = (x1, y1)" by (cases "regularize base_point")
  obtain x2 y2 where p2: "regularize point = (x2, y2)" by (cases "regularize point")
  have r1: "0 \<le> x1" "x1 < 1" "0 \<le> y1" "y1 < 1"
    using regularize_range [of base_point] unfolding p1 by simp_all
  have r2: "0 \<le> x2" "x2 < 1" "0 \<le> y2" "y2 < 1"
    using regularize_range [of point] unfolding p2 by simp_all
  from assms have "equivalent r point 0" by (simp only: equivalent_exact)
  then have "equivalent r (regularize point) 0" by (simp only: equivalent_regularize_right)
  then have "equivalent r (x2, y2) 0" by (simp only: p2)
  from equivalent_zero_form [OF this] show ?thesis
  proof (elim disjE exE)
    fix k m assume "r = (x2 + 2 * of_int k, y2 + of_int m)"
    with dominate_even [OF r1 r2, of k m] show ?thesis by (simp only: p1 p2)
  next
    fix k m assume "r = (x2 + 1 + 2 * of_int k, of_int m - y2)"
    with dominate_odd [OF r1 r2, of k m] show ?thesis by (simp only: p1 p2)
  qed
qed

lemma fst_closest: "fst (closest_representative a b) = regularize a"
  by (simp only: closest_representative_def Let_def fst_conv)

lemma closest_related: "klein_related (snd (closest_representative a b)) b"
  using closest_equivalent [of a b b 0] equivalent_refl [of 0 b]
  by (simp only: equivalent_exact order_refl)

text \<open>
  C2: the representative selected by \<^verbatim>\<open>_closest_representative\<close> is one of the nine candidates,
  its squared distance to the regularized base point is at most that of every candidate, it
  lies in the equivalence class of the point, and its squared distance to the regularized
  base point is at most that of every member of the equivalence class of the point.
\<close>

theorem closest_representative_optimal:
  "fst (closest_representative base_point point) = regularize base_point
   \<and> snd (closest_representative base_point point) \<in> set (p2_total (regularize point))
   \<and> (\<forall>c \<in> set (p2_total (regularize point)).
         sqdist (snd (closest_representative base_point point)) (regularize base_point)
         \<le> sqdist c (regularize base_point))
   \<and> klein_related (snd (closest_representative base_point point)) point
   \<and> (\<forall>r. klein_related r point \<longrightarrow>
         sqdist (snd (closest_representative base_point point)) (regularize base_point)
         \<le> sqdist r (regularize base_point))"
proof (intro conjI ballI allI impI)
  show "fst (closest_representative base_point point) = regularize base_point"
    by (rule fst_closest)
  show "snd (closest_representative base_point point) \<in> set (p2_total (regularize point))"
    by (rule closest_in_total)
  show "klein_related (snd (closest_representative base_point point)) point"
    by (rule closest_related)
next
  fix c assume "c \<in> set (p2_total (regularize point))"
  then show "sqdist (snd (closest_representative base_point point)) (regularize base_point)
             \<le> sqdist c (regularize base_point)"
    by (rule closest_minimal)
next
  fix r assume "klein_related r point"
  from dominate [OF this, of base_point] obtain c
    where c: "c \<in> set (p2_total (regularize point))"
      and le: "sqdist c (regularize base_point) \<le> sqdist r (regularize base_point)"
    by blast
  from closest_minimal [OF c, of base_point] le
  show "sqdist (snd (closest_representative base_point point)) (regularize base_point)
        \<le> sqdist r (regularize base_point)"
    by (rule order_trans)
qed

theorem closest_representative_optimal_witness:
  "regularize (3 / 2, 3 / 10) \<in> set (p2_total (regularize (3 / 2, 3 / 10)))
   \<and> sqdist (snd (closest_representative (1 / 4, 1 / 4) (3 / 2, 3 / 10))) (regularize (1 / 4, 1 / 4))
      \<le> sqdist (regularize (3 / 2, 3 / 10)) (regularize (1 / 4, 1 / 4))
   \<and> klein_related (7 / 2, 13 / 10) (3 / 2, 3 / 10)
   \<and> sqdist (snd (closest_representative (1 / 4, 1 / 4) (3 / 2, 3 / 10))) (regularize (1 / 4, 1 / 4))
      \<le> sqdist (7 / 2, 13 / 10) (regularize (1 / 4, 1 / 4))"
proof -
  have h1: "regularize (3 / 2, 3 / 10) \<in> set (p2_total (regularize (3 / 2, 3 / 10)))"
    by (simp add: p2_total_def)
  have h2: "klein_related (7 / 2, 13 / 10) (3 / 2, 3 / 10)"
    by (simp add: klein_related_def is_integer_def)
  from closest_representative_optimal [of "(1 / 4, 1 / 4)" "(3 / 2, 3 / 10)"] h1 h2
  show ?thesis by blast
qed


section \<open>Regularization in double precision\<close>




















section \<open>Entries of matrices\<close>

lemma mat_of_nth: "i < n \<Longrightarrow> j < m \<Longrightarrow> mat_of n m f ! i ! j = f i j"
  by (simp add: mat_of_def)

lemma is_square_mat_of: "is_square n (mat_of n n f)"
  by (auto simp add: is_square_def mat_of_def)

lemma is_square_nth: "is_square n A \<Longrightarrow> i < n \<Longrightarrow> length (A ! i) = n"
  by (simp add: is_square_def)

lemma is_square_map2:
  assumes "is_square n A" "is_square n B"
  shows "is_square n (map2 (map2 f) A B)"
  unfolding is_square_def
proof (intro conjI ballI)
  show "length (map2 (map2 f) A B) = n" using assms by (simp add: is_square_def)
next
  fix r assume "r \<in> set (map2 (map2 f) A B)"
  then obtain a b where "(a, b) \<in> set (zip A B)" "r = map2 f a b" by auto
  then have "a \<in> set A" "b \<in> set B" "r = map2 f a b" by (auto dest: set_zip_leftD set_zip_rightD)
  then show "length r = n" using assms by (simp add: is_square_def)
qed

lemma map2_map2_nth:
  assumes "is_square n A" "is_square n B" "i < n" "j < n"
  shows "map2 (map2 f) A B ! i ! j = f (A ! i ! j) (B ! i ! j)"
proof -
  have l: "length A = n" "length B = n" "length (A ! i) = n" "length (B ! i) = n"
    using assms by (simp_all add: is_square_def)
  then show ?thesis using assms(3,4) by simp
qed

lemma mat_eqI:
  assumes "is_square n A" "is_square n B"
    and "\<And>i j. i < n \<Longrightarrow> j < n \<Longrightarrow> A ! i ! j = B ! i ! j"
  shows "A = B"
proof (rule nth_equalityI)
  show "length A = length B" using assms(1,2) by (simp add: is_square_def)
next
  fix i assume "i < length A"
  then have i: "i < n" using assms(1) by (simp add: is_square_def)
  show "A ! i = B ! i"
  proof (rule nth_equalityI)
    show "length (A ! i) = length (B ! i)"
      using is_square_nth [OF assms(1) i] is_square_nth [OF assms(2) i] by simp
  next
    fix j assume "j < length (A ! i)"
    then have "j < n" using is_square_nth [OF assms(1) i] by simp
    with i show "A ! i ! j = B ! i ! j" by (rule assms(3))
  qed
qed

lemma is_square_sl: "is_square n M \<Longrightarrow> is_square n (to_strictly_lower_triangular M)"
  using is_square_mat_of [of n] by (simp add: to_strictly_lower_triangular_def is_square_def)

lemma sl_nth:
  "is_square n M \<Longrightarrow> i < n \<Longrightarrow> j < n \<Longrightarrow>
   to_strictly_lower_triangular M ! i ! j = (if j < i then M ! i ! j else 0)"
  by (simp add: to_strictly_lower_triangular_def is_square_def mat_of_nth)

lemma is_square_vec_to_diag: "length v = n \<Longrightarrow> is_square n (vec_to_diag v)"
  using is_square_mat_of [of n] by (simp add: vec_to_diag_def)

lemma vec_to_diag_nth:
  "length v = n \<Longrightarrow> i < n \<Longrightarrow> j < n \<Longrightarrow> vec_to_diag v ! i ! j = (if i = j then v ! i else 0)"
  by (simp add: vec_to_diag_def mat_of_nth)

lemma length_diagonal: "is_square n M \<Longrightarrow> length (diagonal M) = n"
  by (simp add: diagonal_def is_square_def)

lemma diagonal_nth: "is_square n M \<Longrightarrow> i < n \<Longrightarrow> diagonal M ! i = M ! i ! i"
  by (simp add: diagonal_def is_square_def)

section \<open>The Cholesky exponential and logarithm\<close>

lemma is_square_exp:
  assumes "is_square n T" "is_square n B"
  shows "is_square n (cholesky_exp T B)"
  unfolding cholesky_exp_def Let_def mat_add_def
  by (intro is_square_map2 is_square_sl assms is_square_vec_to_diag)
     (simp add: length_diagonal [OF assms(1)] length_diagonal [OF assms(2)])

lemma is_square_log:
  assumes "is_square n P" "is_square n B"
  shows "is_square n (cholesky_log P B)"
  unfolding cholesky_log_def Let_def mat_add_def mat_sub_def
  by (intro is_square_map2 is_square_sl assms is_square_vec_to_diag)
     (simp add: length_diagonal [OF assms(1)] length_diagonal [OF assms(2)])

lemma exp_nth:
  assumes T: "is_square n T" and B: "is_square n B" and i: "i < n" and j: "j < n"
  shows "cholesky_exp T B ! i ! j =
         (if j < i then B ! i ! j + T ! i ! j
          else if i = j then B ! i ! i * exp (T ! i ! i / B ! i ! i) else 0)"
proof -
  let ?v = "map2 (*) (diagonal B) (map exp (map2 (/) (diagonal T) (diagonal B)))"
  have lv: "length ?v = n" by (simp add: length_diagonal [OF T] length_diagonal [OF B])
  have vi: "?v ! i = B ! i ! i * exp (T ! i ! i / B ! i ! i)"
    using i by (simp add: length_diagonal [OF T] length_diagonal [OF B]
        diagonal_nth [OF T] diagonal_nth [OF B])
  have s: "is_square n (map2 (map2 (+)) (to_strictly_lower_triangular B) (to_strictly_lower_triangular T))"
    by (intro is_square_map2 is_square_sl T B)
  have "cholesky_exp T B ! i ! j
        = (to_strictly_lower_triangular B ! i ! j + to_strictly_lower_triangular T ! i ! j)
          + vec_to_diag ?v ! i ! j"
    unfolding cholesky_exp_def Let_def mat_add_def
    by (simp only: map2_map2_nth [OF s is_square_vec_to_diag [OF lv] i j]
        map2_map2_nth [OF is_square_sl [OF B] is_square_sl [OF T] i j])
  also have "\<dots> = (if j < i then B ! i ! j + T ! i ! j
          else if i = j then B ! i ! i * exp (T ! i ! i / B ! i ! i) else 0)"
    using i j by (simp only: sl_nth [OF B i j] sl_nth [OF T i j] vec_to_diag_nth [OF lv i j] vi) auto
  finally show ?thesis .
qed

lemma log_nth:
  assumes P: "is_square n P" and B: "is_square n B" and i: "i < n" and j: "j < n"
  shows "cholesky_log P B ! i ! j =
         (if j < i then P ! i ! j - B ! i ! j
          else if i = j then B ! i ! i * ln (P ! i ! i / B ! i ! i) else 0)"
proof -
  let ?v = "map2 (*) (diagonal B) (map ln (map2 (/) (diagonal P) (diagonal B)))"
  have lv: "length ?v = n" by (simp add: length_diagonal [OF P] length_diagonal [OF B])
  have vi: "?v ! i = B ! i ! i * ln (P ! i ! i / B ! i ! i)"
    using i by (simp add: length_diagonal [OF P] length_diagonal [OF B]
        diagonal_nth [OF P] diagonal_nth [OF B])
  have s: "is_square n (map2 (map2 (-)) (to_strictly_lower_triangular P) (to_strictly_lower_triangular B))"
    by (intro is_square_map2 is_square_sl P B)
  have "cholesky_log P B ! i ! j
        = (to_strictly_lower_triangular P ! i ! j - to_strictly_lower_triangular B ! i ! j)
          + vec_to_diag ?v ! i ! j"
    unfolding cholesky_log_def Let_def mat_add_def mat_sub_def
    by (simp only: map2_map2_nth [OF s is_square_vec_to_diag [OF lv] i j]
        map2_map2_nth [OF is_square_sl [OF P] is_square_sl [OF B] i j])
  also have "\<dots> = (if j < i then P ! i ! j - B ! i ! j
          else if i = j then B ! i ! i * ln (P ! i ! i / B ! i ! i) else 0)"
    using i j by (simp only: sl_nth [OF P i j] sl_nth [OF B i j] vec_to_diag_nth [OF lv i j] vi) auto
  finally show ?thesis .
qed

lemma lower_triangularD:
  "lower_triangular M \<Longrightarrow> is_square n M \<Longrightarrow> i < n \<Longrightarrow> j < n \<Longrightarrow> i < j \<Longrightarrow> M ! i ! j = 0"
  by (simp add: lower_triangular_def is_square_def)

lemma positive_diagonalD:
  "positive_diagonal M \<Longrightarrow> is_square n M \<Longrightarrow> i < n \<Longrightarrow> 0 < M ! i ! i"
  by (simp add: positive_diagonal_def is_square_def)

lemma log_exp_inverse:
  assumes B: "is_square n B" and pB: "positive_diagonal B"
    and T: "is_square n T" and lT: "lower_triangular T"
  shows "cholesky_log (cholesky_exp T B) B = T"
proof (rule mat_eqI [OF is_square_log [OF is_square_exp [OF T B] B] T])
  fix i j assume i: "i < n" and j: "j < n"
  have b: "0 < B ! i ! i" by (rule positive_diagonalD [OF pB B i])
  consider "j < i" | "i = j" | "i < j" by linarith
  then show "cholesky_log (cholesky_exp T B) B ! i ! j = T ! i ! j"
  proof cases
    case 1
    then show ?thesis
      by (simp add: log_nth [OF is_square_exp [OF T B] B i j] exp_nth [OF T B i j])
  next
    case 2
    have e: "cholesky_exp T B ! i ! i = B ! i ! i * exp (T ! i ! i / B ! i ! i)"
      by (simp add: exp_nth [OF T B i i])
    have "cholesky_log (cholesky_exp T B) B ! i ! i
          = B ! i ! i * ln (cholesky_exp T B ! i ! i / B ! i ! i)"
      by (simp add: log_nth [OF is_square_exp [OF T B] B i i])
    also have "\<dots> = T ! i ! i" unfolding e using b by simp
    finally show ?thesis using 2 by simp
  next
    case 3
    with lower_triangularD [OF lT T i j] show ?thesis
      by (simp add: log_nth [OF is_square_exp [OF T B] B i j])
  qed
qed

lemma exp_log_inverse:
  assumes B: "is_square n B" and pB: "positive_diagonal B"
    and P: "is_square n P" and lP: "lower_triangular P" and pP: "positive_diagonal P"
  shows "cholesky_exp (cholesky_log P B) B = P"
proof (rule mat_eqI [OF is_square_exp [OF is_square_log [OF P B] B] P])
  fix i j assume i: "i < n" and j: "j < n"
  have b: "0 < B ! i ! i" by (rule positive_diagonalD [OF pB B i])
  have p: "0 < P ! i ! i" by (rule positive_diagonalD [OF pP P i])
  consider "j < i" | "i = j" | "i < j" by linarith
  then show "cholesky_exp (cholesky_log P B) B ! i ! j = P ! i ! j"
  proof cases
    case 1
    then show ?thesis
      by (simp add: exp_nth [OF is_square_log [OF P B] B i j] log_nth [OF P B i j])
  next
    case 2
    have e: "cholesky_log P B ! i ! i = B ! i ! i * ln (P ! i ! i / B ! i ! i)"
      by (simp add: log_nth [OF P B i i])
    have "cholesky_exp (cholesky_log P B) B ! i ! i
          = B ! i ! i * exp (cholesky_log P B ! i ! i / B ! i ! i)"
      by (simp add: exp_nth [OF is_square_log [OF P B] B i i])
    also have "\<dots> = P ! i ! i" unfolding e using b p by simp
    finally show ?thesis using 2 by simp
  next
    case 3
    with lower_triangularD [OF lP P i j] show ?thesis
      by (simp add: exp_nth [OF is_square_log [OF P B] B i j])
  qed
qed

text \<open>
  C3: at every base point of shape \<open>(n, n)\<close> with strictly positive diagonal, the logarithm
  of the exponential of a lower-triangular tangent vector is that tangent vector, and the
  exponential of the logarithm of a lower-triangular point with strictly positive diagonal
  is that point.
\<close>

theorem cholesky_exp_log_inverse:
  assumes "is_square n base_point" "positive_diagonal base_point"
  shows "(is_square n tangent_vec \<and> lower_triangular tangent_vec \<longrightarrow>
            cholesky_log (cholesky_exp tangent_vec base_point) base_point = tangent_vec)
         \<and> (is_square n point \<and> lower_triangular point \<and> positive_diagonal point \<longrightarrow>
            cholesky_exp (cholesky_log point base_point) base_point = point)"
  using log_exp_inverse [OF assms] exp_log_inverse [OF assms] by blast


theorem cholesky_exp_log_inverse_witness:
  "is_square 2 [[2, 0], [1, 3]] \<and> positive_diagonal [[2, 0], [1, 3]]
   \<and> is_square 2 [[1, 0], [2, - 1]] \<and> lower_triangular [[1, 0], [2, - 1]]
   \<and> cholesky_log (cholesky_exp [[1, 0], [2, - 1]] [[2, 0], [1, 3]]) [[2, 0], [1, 3]]
       = [[1, 0], [2, - 1]]
   \<and> is_square 2 [[1, 0], [5, 4]] \<and> lower_triangular [[1, 0], [5, 4]]
   \<and> positive_diagonal [[1, 0], [5, 4]]
   \<and> cholesky_exp (cholesky_log [[1, 0], [5, 4]] [[2, 0], [1, 3]]) [[2, 0], [1, 3]]
       = [[1, 0], [5, 4]]"
proof -
  have b1: "is_square 2 [[2, 0], [1, 3]]" by (simp add: is_square_def)
  have b2: "positive_diagonal [[2, 0], [1, 3]]"
    by (simp add: positive_diagonal_def numeral_2_eq_2 atLeast0_lessThan_Suc)
  have t1: "is_square 2 [[1, 0], [2, - 1]]" by (simp add: is_square_def)
  have t2: "lower_triangular [[1, 0], [2, - 1]]"
    by (simp add: lower_triangular_def numeral_2_eq_2 atLeast0_lessThan_Suc)
  have p1: "is_square 2 [[1, 0], [5, 4]]" by (simp add: is_square_def)
  have p2: "lower_triangular [[1, 0], [5, 4]]"
    by (simp add: lower_triangular_def numeral_2_eq_2 atLeast0_lessThan_Suc)
  have p3: "positive_diagonal [[1, 0], [5, 4]]"
    by (simp add: positive_diagonal_def numeral_2_eq_2 atLeast0_lessThan_Suc)
  from cholesky_exp_log_inverse [OF b1 b2, where tangent_vec = "[[1, 0], [2, - 1]]"
      and point = "[[1, 0], [5, 4]]"] b1 b2 t1 t2 p1 p2 p3
  show ?thesis by blast
qed

section \<open>The Cholesky squared distance\<close>

lemma sum_lower:
  fixes g :: "nat \<Rightarrow> real"
  assumes "i < n"
  shows "(\<Sum>j<n. if j < i then g j else 0) = (\<Sum>j<i. g j)"
proof -
  have "(\<Sum>j<i. g j) = (\<Sum>j<i. if j < i then g j else 0)" by simp
  also have "\<dots> = (\<Sum>j<n. if j < i then g j else 0)"
    by (rule sum.mono_neutral_left) (use assms in auto)
  finally show ?thesis by simp
qed

lemma sum_list_upt: "sum_list (map f [0..<n]) = (\<Sum>i<n. f i)" for f :: "nat \<Rightarrow> real"
  by (simp add: interv_sum_list_conv_sum_set_nat lessThan_atLeast0)

lemma mat_sub_mat_of:
  "mat_sub (mat_of n n f) (mat_of n n g) = mat_of n n (\<lambda>i j. f i j - g i j)"
  by (simp add: mat_sub_def mat_of_def map2_map_map)

lemma frobenius_mat_of:
  "frobenius_product (mat_of n n f) (mat_of n n f) = (\<Sum>i<n. \<Sum>j<n. f i j * f i j)"
  by (simp add: frobenius_product_def mat_of_def map2_map_map sum_list_upt)

lemma squared_dist_eq:
  assumes a: "is_square n a" and b: "is_square n b"
  shows "squared_dist a b = squared_dist_closed_form n a b"
proof -
  have la: "length a = n" and lb: "length b = n" using a b by (simp_all add: is_square_def)
  have d: "sum_list (map (\<lambda>d. d\<^sup>2) (map2 (-) (map ln (diagonal a)) (map ln (diagonal b))))
           = (\<Sum>i<n. (ln (a ! i ! i) - ln (b ! i ! i))\<^sup>2)"
    by (simp add: diagonal_def la lb map2_map_map sum_list_upt)
  have "frobenius_product
          (mat_sub (to_strictly_lower_triangular a) (to_strictly_lower_triangular b))
          (mat_sub (to_strictly_lower_triangular a) (to_strictly_lower_triangular b))
        = (\<Sum>i<n. \<Sum>j<n. (if j < i then (a ! i ! j - b ! i ! j)\<^sup>2 else 0))"
    unfolding to_strictly_lower_triangular_def la lb mat_sub_mat_of frobenius_mat_of
    by (intro sum.cong refl) (simp add: power2_eq_square)
  also have "\<dots> = (\<Sum>i<n. \<Sum>j<i. (a ! i ! j - b ! i ! j)\<^sup>2)"
    by (intro sum.cong refl sum_lower) simp
  finally show ?thesis
    unfolding squared_dist_def Let_def squared_dist_closed_form_def d by simp
qed

lemma squared_dist_example: "squared_dist [[1, 0], [0, 1]] [[exp 1, 0], [0, 1]] = 1"
proof -
  have sq: "is_square 2 [[1, 0], [0, 1]]" "is_square 2 [[exp 1, 0], [0, 1]]"
    by (simp_all add: is_square_def)
  show ?thesis unfolding squared_dist_eq [OF sq] squared_dist_closed_form_def
    by (simp add: numeral_2_eq_2)
qed

text \<open>
  C9: for matrices of shape \<open>(n, n)\<close> with strictly positive diagonals the squared distance
  equals the closed form, and the squared distance between the identity matrix of size 2 and
  the diagonal matrix with entries \<open>e\<close> and 1 is 1.
\<close>

theorem squared_dist_closed_form_eq:
  "(is_square n a \<and> is_square n b \<and> positive_diagonal a \<and> positive_diagonal b \<longrightarrow>
      squared_dist a b = squared_dist_closed_form n a b)
   \<and> squared_dist [[1, 0], [0, 1]] [[exp 1, 0], [0, 1]] = 1"
  using squared_dist_eq [of n a b] squared_dist_example by blast

theorem squared_dist_closed_form_eq_witness:
  "is_square 2 [[2, 0], [1, 3]] \<and> is_square 2 [[1, 0], [5, 4]]
   \<and> positive_diagonal [[2, 0], [1, 3]] \<and> positive_diagonal [[1, 0], [5, 4]]
   \<and> squared_dist [[2, 0], [1, 3]] [[1, 0], [5, 4]]
       = squared_dist_closed_form 2 [[2, 0], [1, 3]] [[1, 0], [5, 4]]"
proof -
  have a1: "is_square 2 [[2, 0], [1, 3]]" by (simp add: is_square_def)
  have a2: "positive_diagonal [[2, 0], [1, 3]]"
    by (simp add: positive_diagonal_def numeral_2_eq_2 atLeast0_lessThan_Suc)
  have b1: "is_square 2 [[1, 0], [5, 4]]" by (simp add: is_square_def)
  have b2: "positive_diagonal [[1, 0], [5, 4]]"
    by (simp add: positive_diagonal_def numeral_2_eq_2 atLeast0_lessThan_Suc)
  from squared_dist_closed_form_eq [where n = 2 and a = "[[2, 0], [1, 3]]"
      and b = "[[1, 0], [5, 4]]"] a1 a2 b1 b2
  show ?thesis by blast
qed


section \<open>The vectorization of symmetric matrices\<close>

lemma mat_of_cong:
  "(\<And>i j. i < n \<Longrightarrow> j < m \<Longrightarrow> f i j = g i j) \<Longrightarrow> mat_of n m f = mat_of n m g"
  by (simp add: mat_of_def)

lemma mat_of_self: "is_square n M \<Longrightarrow> mat_of n n (\<lambda>i j. M ! i ! j) = M"
  by (rule mat_eqI [OF is_square_mat_of, of n]) (simp_all add: mat_of_nth)

lemma set_index_rows:
  "(i, j) \<in> set (concat (map (\<lambda>i. map (Pair i) (cols i)) [0..<k])) \<longleftrightarrow> i < k \<and> j \<in> set (cols i)"
  by auto

lemma array_from_sparse_map:
  "array_from_sparse ixs (map g ixs) (n, m)
   = mat_of n m (\<lambda>i j. if (i, j) \<in> set ixs then g (i, j) else 0)"
proof -
  have "zip (rev ixs) (rev (map g ixs)) = rev (zip ixs (map g ixs))"
    by (rule zip_rev) simp
  then have "rev (zip ixs (map g ixs)) = zip (rev ixs) (map g (rev ixs))"
    by (simp only: rev_map)
  then have "map_of (rev (zip ixs (map g ixs))) k = (if k \<in> set ixs then Some (g k) else None)"
    for k
    by (simp add: map_of_zip_map)
  then show ?thesis unfolding array_from_sparse_def fst_conv snd_conv
    by (intro mat_of_cong) simp
qed

lemma set_triu_indices: "(i, j) \<in> set (triu_indices n) \<longleftrightarrow> i \<le> j \<and> j < n"
  unfolding triu_indices_def set_index_rows by auto

lemma sum_Suc_upto: "2 * (\<Sum>i<n. Suc i) = n * (n + 1)"
  by (induction n) simp_all

lemma length_triu_indices: "2 * length (triu_indices n) = n * (n + 1)"
proof -
  have "length (triu_indices n) = (\<Sum>i<n. n - i)"
    by (simp add: triu_indices_def length_concat comp_def interv_sum_list_conv_sum_set_nat
        lessThan_atLeast0)
  also have "\<dots> = (\<Sum>i<n. Suc (n - Suc i))" by (intro sum.cong refl) simp
  also have "\<dots> = (\<Sum>i<n. Suc i)" by (rule sum.nat_diff_reindex)
  finally show ?thesis by (simp only: sum_Suc_upto)
qed

lemma mat_dim_triu: "(sqrt (8 * real (length (triu_indices n)) + 1) - 1) / 2 = real n"
proof -
  have "real (2 * length (triu_indices n)) = real (n * (n + 1))"
    by (simp only: length_triu_indices)
  then have "8 * real (length (triu_indices n)) + 1 = (2 * real n + 1)\<^sup>2"
    by (simp add: power2_eq_square algebra_simps)
  then have "sqrt (8 * real (length (triu_indices n)) + 1) = 2 * real n + 1"
    by (simp only: real_sqrt_abs)
  then show ?thesis by simp
qed

lemma upper_triangular_eq:
  "array_from_sparse (triu_indices n) (triu_to_vec M) (n, n)
   = mat_of n n (\<lambda>i j. if i \<le> j then M ! i ! j else 0)" if "length M = n"
proof -
  have "array_from_sparse (triu_indices n) (triu_to_vec M) (n, n)
        = mat_of n n (\<lambda>i j. if (i, j) \<in> set (triu_indices n) then M ! i ! j else 0)"
    unfolding triu_to_vec_def that
    by (simp only: array_from_sparse_map fst_conv snd_conv)
  also have "\<dots> = mat_of n n (\<lambda>i j. if i \<le> j then M ! i ! j else 0)"
    by (rule mat_of_cong) (simp add: set_triu_indices)
  finally show ?thesis .
qed

lemma to_symmetric_mat_of:
  "to_symmetric (mat_of n n f) = mat_of n n (\<lambda>i j. 1 / 2 * (f i j + f j i))"
proof -
  have t: "transpose_mat (mat_of n n f) = mat_of n n (\<lambda>i j. f j i)"
    unfolding transpose_mat_def
    by (simp add: mat_of_def cong: map_cong)
  show ?thesis unfolding to_symmetric_def t
    by (simp add: mat_add_def mat_of_def map2_map_map comp_def)
qed

lemma mat_mul_mat_of:
  "map2 (map2 (*)) (mat_of n n f) (mat_of n n g) = mat_of n n (\<lambda>i j. f i j * g i j)"
  by (simp add: mat_of_def map2_map_map)

lemma symmetric_matD:
  "symmetric_mat M \<Longrightarrow> is_square n M \<Longrightarrow> i < n \<Longrightarrow> j < n \<Longrightarrow> M ! i ! j = M ! j ! i"
  by (simp add: symmetric_mat_def is_square_def)

lemma matrix_representation_basis:
  assumes sq: "is_square n M" and sym: "symmetric_mat M"
  shows "matrix_representation (basis_representation M) = Inr M"
proof -
  have l: "length M = n" using sq by (simp add: is_square_def)
  have lv: "length (basis_representation M) = length (triu_indices n)"
    by (simp add: basis_representation_def triu_to_vec_def l)
  have d: "(sqrt (8 * real (length (basis_representation M)) + 1) - 1) / 2 = real n"
    unfolding lv by (rule mat_dim_triu)
  have pi: "py_int (real n) = int n" by (simp add: py_int_def)
  have u: "array_from_sparse (triu_indices n) (basis_representation M) (n, n)
           = mat_of n n (\<lambda>i j. if i \<le> j then M ! i ! j else 0)"
    unfolding basis_representation_def by (rule upper_triangular_eq [OF l])
  have "map2 (map2 (*))
          (to_symmetric (array_from_sparse (triu_indices n) (basis_representation M) (n, n)))
          (mat_of n n (\<lambda>i j. 2 * 1 - (if i = j then 1 else 0)))
        = mat_of n n (\<lambda>i j. M ! i ! j)"
    unfolding u to_symmetric_mat_of mat_mul_mat_of
  proof (rule mat_of_cong)
    fix i j assume "i < n" "j < n"
    from symmetric_matD [OF sym sq this] 
    show "1 / 2 * ((if i \<le> j then M ! i ! j else 0) + (if j \<le> i then M ! j ! i else 0))
          * (2 * 1 - (if i = j then 1 else 0)) = M ! i ! j"
      by auto
  qed
  then have m: "map2 (map2 (*))
          (to_symmetric (array_from_sparse (triu_indices n) (basis_representation M) (n, n)))
          (mat_of n n (\<lambda>i j. 2 * 1 - (if i = j then 1 else 0))) = M"
    by (simp only: mat_of_self [OF sq])
  show ?thesis
    unfolding matrix_representation_def Let_def d pi nat_int
    by (simp only: m of_int_of_nat_eq if_False simp_thms)
qed


text \<open>
  C10: for every \<open>n\<close> and every symmetric matrix of shape \<open>(n, n)\<close>, the matrix representation
  of the basis representation of the matrix is the matrix itself, and no error is raised.
\<close>

theorem matrix_representation_round_trip:
  assumes "is_square n M" "symmetric_mat M"
  shows "matrix_representation (basis_representation M) = Inr M"
  using assms by (rule matrix_representation_basis)

theorem matrix_representation_round_trip_witness:
  "is_square 2 [[1, 2], [2, 3]] \<and> symmetric_mat [[1, 2], [2, 3]]
   \<and> matrix_representation (basis_representation [[1, 2], [2, 3]]) = Inr [[1, 2], [2, 3]]"
proof -
  have h1: "is_square 2 [[1, 2], [2, 3]]" by (simp add: is_square_def)
  have h2: "symmetric_mat [[1, 2], [2, 3]]"
    by (simp add: symmetric_mat_def numeral_2_eq_2 atLeast0_lessThan_Suc)
  from h1 h2 matrix_representation_round_trip [OF h1 h2] show ?thesis by blast
qed


section \<open>The round trip of the unit-normed-rows diffeomorphism\<close>

lemma insort_key_above:
  fixes f :: "'a \<Rightarrow> int"
  assumes "\<forall>z \<in> set zs. f z < f x"
  shows "insort_key f x (zs @ ws) = zs @ insort_key f x ws"
  using assms by (induction zs) auto

lemma foldr_insort_key_above:
  fixes f :: "'a \<Rightarrow> int"
  assumes "\<forall>x \<in> set xs. \<forall>z \<in> set zs. f z < f x"
  shows "foldr (insort_key f) xs (zs @ ws) = zs @ foldr (insort_key f) xs ws"
  using assms by (induction xs) (simp_all add: insort_key_above)

lemma sort_key_append_above:
  fixes f :: "'a \<Rightarrow> int"
  assumes "\<forall>x \<in> set xs. \<forall>y \<in> set ys. f y < f x"
  shows "sort_key f (xs @ ys) = sort_key f ys @ sort_key f xs"
proof -
  have "sort_key f (xs @ ys) = foldr (insort_key f) xs (sort_key f ys @ [])"
    by (simp add: sort_key_def)
  also have "\<dots> = sort_key f ys @ foldr (insort_key f) xs []"
    by (rule foldr_insort_key_above) (use assms in simp)
  finally show ?thesis by (simp add: sort_key_def)
qed

lemma sort_key_const:
  fixes f :: "'a \<Rightarrow> int"
  assumes "\<forall>y \<in> set ys. f y = c"
  shows "sort_key f ys = ys"
  using assms
proof (induction ys)
  case Nil
  show ?case by simp
next
  case (Cons y ys)
  then have "sort_key f (y # ys) = insort_key f y ys" by simp
  also have "\<dots> = y # ys" using Cons.prems by (cases ys) simp_all
  finally show ?case .
qed

lemma tril_indices_Suc:
  "tril_indices (Suc n) = tril_indices n @ map (Pair n) [0..<Suc n]"
  by (simp add: tril_indices_def)

lemma sorted_tril_indices:
  "sort_key (\<lambda>x. - int (fst x)) (tril_indices n)
   = concat (map (\<lambda>i. map (Pair i) [0..<Suc i]) (rev [0..<n]))"
proof (induction n)
  case 0
  show ?case by (simp add: tril_indices_def)
next
  case (Suc n)
  have above: "\<forall>x \<in> set (tril_indices n). \<forall>y \<in> set (map (Pair n) [0..<Suc n]).
                 - int (fst y) < - int (fst x)"
    by (auto simp add: tril_indices_def)
  have row: "sort_key (\<lambda>x. - int (fst x)) (map (Pair n) [0..<Suc n]) = map (Pair n) [0..<Suc n]"
    by (rule sort_key_const [where c = "- int n"]) auto
  show ?case
    unfolding tril_indices_Suc sort_key_append_above [OF above] row Suc.IH by simp
qed

lemma set_tril_indices: "(i, j) \<in> set (tril_indices n) \<longleftrightarrow> i < n \<and> j \<le> i"
  unfolding tril_indices_def set_index_rows by auto

lemma take_row:
  assumes "k \<le> length xs"
  shows "take k xs = map (\<lambda>j. xs ! j) [0..<k]"
  by (rule nth_equalityI) (use assms in simp_all)

lemma flipped_values:
  assumes sq: "is_square n p" and n: "0 < n" and first: "p ! 0 ! 0 = c"
  shows "rev (concat (map (\<lambda>i. rev (take (i + 1) (p ! i))) [1..<n])) @ [c]
         = map (\<lambda>ix. p ! fst ix ! snd ix)
             (concat (map (\<lambda>i. map (Pair i) [0..<Suc i]) (rev [0..<n])))"
proof -
  have row: "take (Suc i) (p ! i) = map (\<lambda>j. p ! i ! j) [0..<Suc i]" if "i < n" for i
    by (rule take_row) (use is_square_nth [OF sq that] that in simp)
  have r0: "[c] = take (Suc 0) (p ! 0)" using row [OF n] first by simp
  have u: "[0..<n] = 0 # [1..<n]" using upt_conv_Cons [OF n] by simp
  have "rev (concat (map (\<lambda>i. rev (take (i + 1) (p ! i))) [1..<n])) @ [c]
        = concat (map (\<lambda>i. take (Suc i) (p ! i)) (rev [1..<n])) @ take (Suc 0) (p ! 0)"
    unfolding r0 by (simp add: rev_concat rev_map comp_def)
  also have "\<dots> = concat (map (\<lambda>i. take (Suc i) (p ! i)) (rev [0..<n]))"
    unfolding u by simp
  also have "\<dots> = concat (map (\<lambda>i. map (\<lambda>j. p ! i ! j) [0..<Suc i]) (rev [0..<n]))"
    by (rule arg_cong [where f = concat], rule map_cong [OF refl]) (simp add: row)
  also have "\<dots> = map (\<lambda>ix. p ! fst ix ! snd ix)
             (concat (map (\<lambda>i. map (Pair i) [0..<Suc i]) (rev [0..<n])))"
    by (simp add: map_concat comp_def)
  finally show ?thesis .
qed

lemma from_product_to_mat_inverse:
  assumes sq: "is_square n p" and lt: "lower_triangular p" and n: "0 < n"
    and first: "p ! 0 ! 0 = (if ones then 1 else 0)"
  shows "from_product_to_mat n (concat (map (\<lambda>i. rev (take (i + 1) (p ! i))) [1..<n])) ones = p"
proof -
  let ?ixs = "sort_key (\<lambda>x. - int (fst x)) (tril_indices n)"
  have s: "set ?ixs = set (tril_indices n)" by simp
  have c: "(if ones then [1] else [0]) = [if ones then 1 else 0 :: real]" by simp
  have v: "rev (concat (map (\<lambda>i. rev (take (i + 1) (p ! i))) [1..<n])) @ (if ones then [1] else [0])
           = map (\<lambda>ix. p ! fst ix ! snd ix) ?ixs"
    unfolding c sorted_tril_indices by (rule flipped_values [OF sq n first])
  have "from_product_to_mat n (concat (map (\<lambda>i. rev (take (i + 1) (p ! i))) [1..<n])) ones
        = mat_of n n (\<lambda>i j. if (i, j) \<in> set ?ixs then p ! i ! j else 0)"
    unfolding from_product_to_mat_def Let_def v
    by (simp only: array_from_sparse_map fst_conv snd_conv)
  also have "\<dots> = mat_of n n (\<lambda>i j. p ! i ! j)"
  proof (rule mat_of_cong)
    fix i j assume ij: "i < n" "j < n"
    show "(if (i, j) \<in> set ?ixs then p ! i ! j else 0) = p ! i ! j"
    proof (cases "j \<le> i")
      case True
      with ij show ?thesis unfolding s set_tril_indices by simp
    next
      case False
      then have "i < j" by simp
      from lower_triangularD [OF lt sq ij this] False show ?thesis
        unfolding s set_tril_indices by simp
    qed
  qed
  finally show ?thesis by (simp only: mat_of_self [OF sq])
qed

lemma diffeomorphism_value:
  assumes "2 \<le> n"
  shows "diffeomorphism n p = Inr (concat (map (\<lambda>i. rev (take (i + 1) (p ! i))) [1..<n]))"
proof -
  from assms have "Suc 0 < n" by simp
  from upt_conv_Cons [OF this] show ?thesis by (simp add: diffeomorphism_def)
qed

text \<open>
  For the matrix \<^verbatim>\<open>[[1]]\<close> of shape \<open>(1, 1)\<close> there is no round trip: the diffeomorphism has no
  row to flip and the concatenation of the empty sequence raises.
\<close>

theorem diffeomorphism_raises_for_one_row:
  "(case diffeomorphism 1 [[1]] of Inl e \<Rightarrow> Inl e
    | Inr v \<Rightarrow> Inr (inverse_diffeomorphism 1 v)) \<noteq> Inr [[1]]"
  by (simp add: diffeomorphism_def)

text \<open>
  C4, amended: for every \<open>n\<close> from 2 on and every lower-triangular matrix of shape \<open>(n, n)\<close>,
  the inverse diffeomorphism of the diffeomorphism of the matrix is the matrix when its first
  entry is 1, and the inverse tangent diffeomorphism of the tangent diffeomorphism of the
  matrix is the matrix when its first entry is 0; neither call raises.
\<close>

theorem diffeomorphism_round_trip:
  assumes "2 \<le> n" "is_square n p" "lower_triangular p"
  shows "(p ! 0 ! 0 = 1 \<longrightarrow>
            (case diffeomorphism n p of Inl e \<Rightarrow> Inl e
             | Inr v \<Rightarrow> Inr (inverse_diffeomorphism n v)) = Inr p)
         \<and> (p ! 0 ! 0 = 0 \<longrightarrow>
            (case tangent_diffeomorphism n p of Inl e \<Rightarrow> Inl e
             | Inr v \<Rightarrow> Inr (inverse_tangent_diffeomorphism n v)) = Inr p)"
proof -
  from assms(1) have n: "0 < n" by simp
  have a: "from_product_to_mat n (concat (map (\<lambda>i. rev (take (i + 1) (p ! i))) [1..<n])) True = p"
    if "p ! 0 ! 0 = 1"
    by (rule from_product_to_mat_inverse [OF assms(2,3) n]) (use that in simp)
  have b: "from_product_to_mat n (concat (map (\<lambda>i. rev (take (i + 1) (p ! i))) [1..<n])) False = p"
    if "p ! 0 ! 0 = 0"
    by (rule from_product_to_mat_inverse [OF assms(2,3) n]) (use that in simp)
  show ?thesis
    using a b
    by (simp add: tangent_diffeomorphism_def diffeomorphism_value [OF assms(1)]
        inverse_diffeomorphism_def inverse_tangent_diffeomorphism_def)
qed

theorem diffeomorphism_round_trip_witness:
  "(2::nat) \<le> 2 \<and> is_square 2 [[1, 0], [3, 4]] \<and> lower_triangular [[1, 0], [3, 4]]
   \<and> [[1, 0], [3, 4]] ! 0 ! 0 = (1::real)
   \<and> (case diffeomorphism 2 [[1, 0], [3, 4]] of Inl e \<Rightarrow> Inl e
        | Inr v \<Rightarrow> Inr (inverse_diffeomorphism 2 v)) = Inr [[1, 0], [3, 4]]
   \<and> is_square 2 [[0, 0], [3, 4]] \<and> lower_triangular [[0, 0], [3, 4]]
   \<and> [[0, 0], [3, 4]] ! 0 ! 0 = (0::real)
   \<and> (case tangent_diffeomorphism 2 [[0, 0], [3, 4]] of Inl e \<Rightarrow> Inl e
        | Inr v \<Rightarrow> Inr (inverse_tangent_diffeomorphism 2 v)) = Inr [[0, 0], [3, 4]]"
proof -
  have n: "(2::nat) \<le> 2" by simp
  have p1: "is_square 2 [[1, 0], [3, 4]]" by (simp add: is_square_def)
  have p2: "lower_triangular [[1, 0], [3, 4]]"
    by (simp add: lower_triangular_def numeral_2_eq_2 atLeast0_lessThan_Suc)
  have p3: "[[1, 0], [3, 4]] ! 0 ! 0 = (1::real)" by simp
  have v1: "is_square 2 [[0, 0], [3, 4]]" by (simp add: is_square_def)
  have v2: "lower_triangular [[0, 0], [3, 4]]"
    by (simp add: lower_triangular_def numeral_2_eq_2 atLeast0_lessThan_Suc)
  have v3: "[[0, 0], [3, 4]] ! 0 ! 0 = (0::real)" by simp
  from diffeomorphism_round_trip [OF n p1 p2] diffeomorphism_round_trip [OF n v1 v2]
    n p1 p2 p3 v1 v2 v3
  show ?thesis by blast
qed

end
